theory Spec2Isabelle
  imports Main "HOL-Library.Sublist" "HOL-Library.AList"
begin

section \<open>JavaScript strings\<close>

text \<open>
  Strings are sequences of code units, modelled as \<^typ>\<open>string\<close>.  The built-in string
  methods the program calls are written out as list functions; none of them looks inside a
  code unit, so the choice of the element type does not matter.
\<close>

text \<open>\<^verbatim>\<open>s.startsWith(p)\<close>\<close>

fun startsWith :: "string \<Rightarrow> string \<Rightarrow> bool" where
  "startsWith s [] = True"
| "startsWith [] (c # cs) = False"
| "startsWith (x # xs) (c # cs) = (x = c \<and> startsWith xs cs)"

text \<open>\<^verbatim>\<open>s.includes(sub)\<close>\<close>

fun includesStr :: "string \<Rightarrow> string \<Rightarrow> bool" where
  "includesStr [] sub = (sub = [])"
| "includesStr (x # xs) sub = (startsWith (x # xs) sub \<or> includesStr xs sub)"

text \<open>\<^verbatim>\<open>s.endsWith(suf)\<close>\<close>

definition endsWith :: "string \<Rightarrow> string \<Rightarrow> bool" where
  "endsWith s suf = startsWith (rev s) (rev suf)"

text \<open>\<^verbatim>\<open>s.slice(0, -1)\<close>: everything but the last code unit.\<close>

definition slice_0_minus1 :: "string \<Rightarrow> string" where
  "slice_0_minus1 s = butlast s"

text \<open>\<^verbatim>\<open>s.replace(pat, rep)\<close> with a string pattern: only the first occurrence is replaced.\<close>

fun replace :: "string \<Rightarrow> string \<Rightarrow> string \<Rightarrow> string" where
  "replace [] pat rep = (if pat = [] then rep else [])"
| "replace (c # cs) pat rep =
     (if startsWith (c # cs) pat then rep @ drop (length pat) (c # cs)
      else c # replace cs pat rep)"

text \<open>
  \<^verbatim>\<open>s.split(sep)\<close> with a string separator: the pieces between the occurrences of
  \<open>sep\<close>, found from left to right; an empty separator splits into code units.
\<close>

function split_from :: "string \<Rightarrow> string \<Rightarrow> string \<Rightarrow> string list" where
  "split_from sep cur [] = [cur]"
| "split_from sep cur (c # cs) =
     (if sep \<noteq> [] \<and> startsWith (c # cs) sep
      then cur # split_from sep [] (drop (length sep) (c # cs))
      else split_from sep (cur @ [c]) cs)"
  by pat_completeness auto
termination
  by (relation "measure (\<lambda>(sep, cur, rest). length rest)") auto

definition split :: "string \<Rightarrow> string \<Rightarrow> string list" where
  "split s sep = (if sep = [] then map (\<lambda>c. [c]) s else split_from sep [] s)"

section \<open>Errors\<close>

text \<open>
  The exceptions the program can raise: the \<^verbatim>\<open>Error("Argument index out of range")\<close> of
  \<^verbatim>\<open>OSCNode.setValue\<close> and \<^verbatim>\<open>OSCNode.unsetValue\<close>, and the \<^verbatim>\<open>TypeError\<close> the
  language raises when a property of \<^verbatim>\<open>undefined\<close> is read or a value that is not a
  function is called.
\<close>

datatype error = IndexOutOfRange | TypeError

section \<open>The subscription filter (Main.js, class VRChatOSCQuery)\<close>

text \<open>
  \<^verbatim>\<open>subscribedPaths\<close> is a \<^verbatim>\<open>Set\<close> of strings: a list without duplicates in insertion
  order, which is the order \<^verbatim>\<open>for ... of\<close> visits.
\<close>

definition Set_add :: "'a \<Rightarrow> 'a list \<Rightarrow> 'a list" where
  "Set_add x xs = (if x \<in> set xs then xs else xs @ [x])"

definition Set_delete :: "'a \<Rightarrow> 'a list \<Rightarrow> 'a list" where
  "Set_delete x xs = removeAll x xs"

record VRChatOSCQuery =
  subscribedPaths :: "string list"
  subscribeToAll :: bool

text \<open>The two fields as the constructor sets them.\<close>

definition new_VRChatOSCQuery :: VRChatOSCQuery where
  "new_VRChatOSCQuery = \<lparr>subscribedPaths = [], subscribeToAll = True\<rparr>"

text \<open>\<^verbatim>\<open>arr[i]\<close>: \<^verbatim>\<open>undefined\<close> (here \<open>None\<close>) out of range.\<close>

fun at_index :: "'a list \<Rightarrow> nat \<Rightarrow> 'a option" where
  "at_index [] i = None"
| "at_index (x # xs) 0 = Some x"
| "at_index (x # xs) (Suc i) = at_index xs i"

text \<open>
  \<^verbatim>\<open>pathMatches(address, pattern)\<close>.  An array index out of range gives \<^verbatim>\<open>undefined\<close>:
  \<^verbatim>\<open>startsWith(undefined)\<close> looks for the string \<^verbatim>\<open>undefined\<close>, and
  \<^verbatim>\<open>undefined.replace\<close> raises a \<^verbatim>\<open>TypeError\<close>.  \<open>wildcard\<close> is the result of the last
  two statements, the prefix match with \<^verbatim>\<open>*\<close>.
\<close>

definition pathMatches :: "string \<Rightarrow> string \<Rightarrow> error + bool" where
  "pathMatches address pattern =
     (if pattern = address then Inr True
      else
        (let wildcard =
               (if endsWith pattern ''*'' then startsWith address (slice_0_minus1 pattern)
                else False)
         in if includesStr pattern ''(!?'' then
              (let basePattern =
                     (case at_index (split pattern ''(!?'') 0 of
                        None \<Rightarrow> ''undefined''
                      | Some piece \<Rightarrow> piece)
               in case at_index (split pattern ''(!?'') 1 of
                    None \<Rightarrow> Inl TypeError
                  | Some piece \<Rightarrow>
                      (let excludePattern = replace piece '')'' []
                       in if startsWith address basePattern
                             \<and> \<not> includesStr address excludePattern
                          then Inr True
                          else Inr wildcard))
            else Inr wildcard))"

text \<open>The loop of \<^verbatim>\<open>shouldProcessMessage\<close> over the subscribed paths.\<close>

fun anyPathMatches :: "string \<Rightarrow> string list \<Rightarrow> error + bool" where
  "anyPathMatches address [] = Inr False"
| "anyPathMatches address (subscribedPath # rest) =
     (case pathMatches address subscribedPath of
        Inl e \<Rightarrow> Inl e
      | Inr matches \<Rightarrow> if matches then Inr True else anyPathMatches address rest)"

definition shouldProcessMessage :: "VRChatOSCQuery \<Rightarrow> string \<Rightarrow> error + bool" where
  "shouldProcessMessage this address =
     (if subscribeToAll this then Inr True
      else anyPathMatches address (subscribedPaths this))"

definition subscribe :: "string \<Rightarrow> VRChatOSCQuery \<Rightarrow> VRChatOSCQuery" where
  "subscribe path this =
     this\<lparr>subscribeToAll := False, subscribedPaths := Set_add path (subscribedPaths this)\<rparr>"

definition unsubscribe :: "string \<Rightarrow> VRChatOSCQuery \<Rightarrow> VRChatOSCQuery" where
  "unsubscribe path this =
     (let this1 = this\<lparr>subscribedPaths := Set_delete path (subscribedPaths this)\<rparr>
      in if length (subscribedPaths this1) = 0 then this1\<lparr>subscribeToAll := True\<rparr> else this1)"

definition subscribeToAllPaths :: "VRChatOSCQuery \<Rightarrow> VRChatOSCQuery" where
  "subscribeToAllPaths this = this\<lparr>subscribeToAll := True, subscribedPaths := []\<rparr>"

text \<open>A call of one of the three mutators, and a sequence of calls run from left to right.\<close>

datatype filter_op = Subscribe string | Unsubscribe string | SubscribeToAllPaths

fun apply_filter_op :: "VRChatOSCQuery \<Rightarrow> filter_op \<Rightarrow> VRChatOSCQuery" where
  "apply_filter_op this (Subscribe p) = subscribe p this"
| "apply_filter_op this (Unsubscribe p) = unsubscribe p this"
| "apply_filter_op this SubscribeToAllPaths = subscribeToAllPaths this"

definition run_filter_ops :: "filter_op list \<Rightarrow> VRChatOSCQuery" where
  "run_filter_ops ops = foldl apply_filter_op new_VRChatOSCQuery ops"

subsection \<open>The pattern grammar, in the specification's words and as the code has it\<close>

text \<open>The part of a pattern before its first \<^verbatim>\<open>(!?\<close> token, and the part after it.\<close>

fun before_token :: "string \<Rightarrow> string" where
  "before_token [] = []"
| "before_token (c # cs) = (if prefix ''(!?'' (c # cs) then [] else c # before_token cs)"

fun after_token :: "string \<Rightarrow> string" where
  "after_token [] = []"
| "after_token (c # cs) = (if prefix ''(!?'' (c # cs) then drop 3 (c # cs) else after_token cs)"

text \<open>
  The grammar as the specification words it: exact; or prefix wildcard; or negative
  substring, the exclude string being the right side up to the next \<^verbatim>\<open>)\<close>.
\<close>

definition spec_pattern_matches :: "string \<Rightarrow> string \<Rightarrow> bool" where
  "spec_pattern_matches p a =
     (p = a
      \<or> (suffix ''*'' p \<and> prefix (butlast p) a)
      \<or> (sublist ''(!?'' p \<and> prefix (before_token p) a
          \<and> \<not> sublist (takeWhile (\<lambda>c. c \<noteq> CHR '')'') (after_token p)) a))"

text \<open>
  The grammar the code implements: the exclude string is the piece between the first token
  and the next token (or the end of the pattern), with its first \<^verbatim>\<open>)\<close> deleted.
\<close>

definition code_pattern_matches :: "string \<Rightarrow> string \<Rightarrow> bool" where
  "code_pattern_matches p a =
     (p = a
      \<or> (suffix ''*'' p \<and> prefix (butlast p) a)
      \<or> (sublist ''(!?'' p \<and> prefix (before_token p) a
          \<and> \<not> sublist (remove1 (CHR '')'') (before_token (after_token p))) a))"

section \<open>JavaScript values and JSON text\<close>

text \<open>
  The values the tree stores and the objects the serializer builds.  An object is the list
  of its own properties in insertion order, which is the order JavaScript enumerates them
  in unless a key looks like an array index (such keys come first; no property below
  depends on the order of child names).  Numbers are opaque to the program (it only stores
  them and compares the access code with small constants), so they are integers here.
\<close>

datatype jsval =
    JSUndefined
  | JSNull
  | JSBoolean bool
  | JSNumber int
  | JSString string
  | JSArray "jsval list"
  | JSObject "(string \<times> jsval) list"

text \<open>
  \<^verbatim>\<open>obj[key]\<close> on an object built by the serializer: the own property, \<^verbatim>\<open>undefined\<close>
  when there is none.  (The keys read this way are the attribute names of
  \<^verbatim>\<open>VALID_ATTRIBUTES\<close>; none of them is inherited from \<^verbatim>\<open>Object.prototype\<close>.)
\<close>

definition get_property :: "(string \<times> jsval) list \<Rightarrow> string \<Rightarrow> jsval" where
  "get_property obj key = (case map_of obj key of Some v \<Rightarrow> v | None \<Rightarrow> JSUndefined)"

text \<open>The content of a JSON text.\<close>

datatype json =
    JNull
  | JBool bool
  | JNum int
  | JStr string
  | JArr "json list"
  | JObj "(string \<times> json) list"

text \<open>
  \<^verbatim>\<open>JSON.stringify(v)\<close>: \<^verbatim>\<open>undefined\<close> has no JSON text (\<open>None\<close>); inside an array it
  is written as \<^verbatim>\<open>null\<close>, and a property whose value is \<^verbatim>\<open>undefined\<close> is left out of
  its object.
\<close>

fun JSON_stringify :: "jsval \<Rightarrow> json option"
  and JSON_elements :: "jsval list \<Rightarrow> json list"
  and JSON_members :: "(string \<times> jsval) list \<Rightarrow> (string \<times> json) list"
where
  "JSON_stringify JSUndefined = None"
| "JSON_stringify JSNull = Some JNull"
| "JSON_stringify (JSBoolean b) = Some (JBool b)"
| "JSON_stringify (JSNumber n) = Some (JNum n)"
| "JSON_stringify (JSString s) = Some (JStr s)"
| "JSON_stringify (JSArray vs) = Some (JArr (JSON_elements vs))"
| "JSON_stringify (JSObject ms) = Some (JObj (JSON_members ms))"
| "JSON_elements [] = []"
| "JSON_elements (v # vs) =
     (case JSON_stringify v of None \<Rightarrow> JNull | Some j \<Rightarrow> j) # JSON_elements vs"
| "JSON_members [] = []"
| "JSON_members ((k, v) # ms) =
     (case JSON_stringify v of
        None \<Rightarrow> JSON_members ms
      | Some j \<Rightarrow> (k, j) # JSON_members ms)"

section \<open>OSCNode.js\<close>

text \<open>
  An argument's \<^verbatim>\<open>type\<close> is a type code or an array of types; its \<^verbatim>\<open>range\<close> is an object
  with \<^verbatim>\<open>min\<close>, \<^verbatim>\<open>max\<close> and \<^verbatim>\<open>vals\<close> (each possibly \<^verbatim>\<open>undefined\<close>) or an array of
  ranges and \<^verbatim>\<open>null\<close>s.  In an \<open>option\<close>, \<open>None\<close> stands for \<^verbatim>\<open>null\<close> or
  \<^verbatim>\<open>undefined\<close>.  The \<^verbatim>\<open>value\<close> slot holds any value; \<open>JSUndefined\<close> is the slot of an
  argument that has no \<^verbatim>\<open>value\<close> property.
\<close>

datatype osc_type = OSCType string | OSCTypeArray "osc_type list"

datatype osc_range =
    Range (range_min: jsval) (range_max: jsval) (range_vals: jsval)
  | RangeArray "osc_range option list"

record argument =
  arg_type :: osc_type
  arg_value :: jsval
  arg_range :: "osc_range option"
  arg_clipmode :: "string option"

text \<open>The parameter of \<^verbatim>\<open>setOpts\<close>, which is also what a node stores besides its children.\<close>

record method_opts =
  description :: "string option"
  access :: "int option"
  tags :: "string list option"
  critical :: "bool option"
  arguments :: "argument list option"

text \<open>
  A node owns its children, keyed by name.  The \<^verbatim>\<open>_parent\<close> back-reference is not a
  field here: a node is reached from the root, and the nodes passed on the way (nearest
  first, each with the key that was followed) are its chain of parents.  Nodes and
  arguments are values: the model takes the objects passed to different \<^verbatim>\<open>addMethod\<close>
  calls to be distinct objects, so that no two nodes share an argument.
\<close>

datatype OSCNode = OSCNode (name: string) (meta: method_opts) (children: "(string \<times> OSCNode) list")

type_synonym parents = "(OSCNode \<times> string) list"

definition NO_VALUE :: int where "NO_VALUE = 0"
definition READONLY :: int where "READONLY = 1"
definition WRITEONLY :: int where "WRITEONLY = 2"
definition READWRITE :: int where "READWRITE = 3"

fun getTypeString :: "osc_type \<Rightarrow> string"
  and getTypeStrings :: "osc_type list \<Rightarrow> string"
where
  "getTypeString (OSCType t) = t"
| "getTypeString (OSCTypeArray ts) = ''['' @ getTypeStrings ts @ '']''"
| "getTypeStrings [] = []"
| "getTypeStrings (t # ts) = getTypeString t @ getTypeStrings ts"

fun serializeRange :: "osc_range \<Rightarrow> jsval"
  and serializeRanges :: "osc_range option list \<Rightarrow> jsval list"
where
  "serializeRange (Range mn mx vs) = JSObject [(''MAX'', mx), (''MIN'', mn), (''VALS'', vs)]"
| "serializeRange (RangeArray rs) = JSArray (serializeRanges rs)"
| "serializeRanges [] = []"
| "serializeRanges (None # rs) = JSNull # serializeRanges rs"
| "serializeRanges (Some r # rs) = serializeRange r # serializeRanges rs"

text \<open>\<^verbatim>\<open>assembleFullPath(node)\<close>, by recursion on the chain of parents.\<close>

fun assembleFullPath :: "parents \<Rightarrow> OSCNode \<Rightarrow> string" where
  "assembleFullPath [] node = []"
| "assembleFullPath ((parent, key) # ps) node = assembleFullPath ps parent @ ''/'' @ name node"

fun allNull :: "'a option list \<Rightarrow> bool" where
  "allNull [] = True"
| "allNull (elem # arr) = (if elem \<noteq> None then False else allNull arr)"

text \<open>\<^verbatim>\<open>new OSCNode(name, parent)\<close>: every property \<^verbatim>\<open>undefined\<close>, no children.\<close>

definition no_opts :: method_opts where
  "no_opts = \<lparr>description = None, access = None, tags = None, critical = None,
     arguments = None\<rparr>"

definition new_OSCNode :: "string \<Rightarrow> OSCNode" where
  "new_OSCNode nm = OSCNode nm no_opts []"

definition setOpts :: "OSCNode \<Rightarrow> method_opts \<Rightarrow> OSCNode" where
  "setOpts this desc = OSCNode (name this) desc (children this)"

definition set_children :: "OSCNode \<Rightarrow> (string \<times> OSCNode) list \<Rightarrow> OSCNode" where
  "set_children this cs = OSCNode (name this) (meta this) cs"

text \<open>
  \<^verbatim>\<open>setValue\<close>, \<^verbatim>\<open>unsetValue\<close> and \<^verbatim>\<open>getValue\<close> of a node.  The check
  \<^verbatim>\<open>arg_index >= this._args.length\<close> lets a negative index through; \<^verbatim>\<open>this._args[-1]\<close>
  is \<^verbatim>\<open>undefined\<close>, and reading or writing its \<^verbatim>\<open>value\<close> raises a \<^verbatim>\<open>TypeError\<close>.
\<close>

definition node_setValue :: "OSCNode \<Rightarrow> int \<Rightarrow> jsval \<Rightarrow> error + OSCNode" where
  "node_setValue this arg_index v =
     (case arguments (meta this) of
        None \<Rightarrow> Inl IndexOutOfRange
      | Some args \<Rightarrow>
          if arg_index \<ge> int (length args) then Inl IndexOutOfRange
          else if arg_index < 0 then Inl TypeError
          else Inr (setOpts this ((meta this)\<lparr>arguments :=
                 Some (args[nat arg_index := (args ! nat arg_index)\<lparr>arg_value := v\<rparr>])\<rparr>)))"

definition node_unsetValue :: "OSCNode \<Rightarrow> int \<Rightarrow> error + OSCNode" where
  "node_unsetValue this arg_index =
     (case arguments (meta this) of
        None \<Rightarrow> Inl IndexOutOfRange
      | Some args \<Rightarrow>
          if arg_index \<ge> int (length args) then Inl IndexOutOfRange
          else if arg_index < 0 then Inl TypeError
          else Inr (setOpts this ((meta this)\<lparr>arguments :=
                 Some (args[nat arg_index :=
                   (args ! nat arg_index)\<lparr>arg_value := JSUndefined\<rparr>])\<rparr>)))"

definition node_getValue :: "OSCNode \<Rightarrow> int \<Rightarrow> error + jsval" where
  "node_getValue this arg_index =
     (case arguments (meta this) of
        None \<Rightarrow> Inr JSNull
      | Some args \<Rightarrow>
          if arg_index \<ge> int (length args) then Inr JSNull
          else if arg_index < 0 then Inl TypeError
          else Inr (arg_value (args ! nat arg_index)))"

definition isEmpty :: "OSCNode \<Rightarrow> bool" where
  "isEmpty this = (arguments (meta this) = None \<and> length (children this) = 0)"

definition isContainer :: "OSCNode \<Rightarrow> bool" where
  "isContainer this = (arguments (meta this) = None \<and> length (children this) > 0)"

text \<open>
  \<^verbatim>\<open>_children\<close> is a plain object, so \<^verbatim>\<open>path in this._children\<close> also holds for the
  property names it inherits from \<^verbatim>\<open>Object.prototype\<close>, and \<^verbatim>\<open>this._children[path]\<close> is
  then a function or object that is not an \<^verbatim>\<open>OSCNode\<close>.
\<close>

definition Object_prototype_keys :: "string list" where
  "Object_prototype_keys =
     [''constructor'', ''__defineGetter__'', ''__defineSetter__'', ''hasOwnProperty'',
      ''__lookupGetter__'', ''__lookupSetter__'', ''isPrototypeOf'',
      ''propertyIsEnumerable'', ''toString'', ''valueOf'', ''__proto__'',
      ''toLocaleString'']"

definition hasChild :: "OSCNode \<Rightarrow> string \<Rightarrow> bool" where
  "hasChild this path =
     (map_of (children this) path \<noteq> None \<or> path \<in> set Object_prototype_keys)"

text \<open>\<^verbatim>\<open>getChild(path)\<close>: \<open>None\<close> when the value is not an \<^verbatim>\<open>OSCNode\<close>.\<close>

definition getChild :: "OSCNode \<Rightarrow> string \<Rightarrow> OSCNode option" where
  "getChild this path = map_of (children this) path"

definition removeChild :: "OSCNode \<Rightarrow> string \<Rightarrow> OSCNode" where
  "removeChild this path =
     (if hasChild this path then set_children this (AList.delete path (children this))
      else this)"

text \<open>
  A node is mutated in place and its parent keeps referring to it.  With nodes as values,
  the changed node is put back under the key it was reached by, in each parent up to the
  root.
\<close>

fun rebuild :: "parents \<Rightarrow> OSCNode \<Rightarrow> OSCNode" where
  "rebuild [] node = node"
| "rebuild ((parent, key) # ps) node =
     rebuild ps (set_children parent (AList.update key node (children parent)))"

text \<open>\<^verbatim>\<open>serialize()\<close>; \<open>serialize_children\<close> is the map over \<^verbatim>\<open>Object.entries\<close>.\<close>

definition nullish :: "jsval \<Rightarrow> jsval option" where
  "nullish v = (if v = JSUndefined \<or> v = JSNull then None else Some v)"

definition or_null :: "('a \<Rightarrow> jsval) \<Rightarrow> 'a option \<Rightarrow> jsval" where
  "or_null f x = (case x of None \<Rightarrow> JSNull | Some y \<Rightarrow> f y)"

definition serialize_arguments :: "int option \<Rightarrow> argument list \<Rightarrow> (string \<times> jsval) list" where
  "serialize_arguments acc args =
     (let arg_types = concat (map (\<lambda>arg. getTypeString (arg_type arg)) args);
          arg_values = map (\<lambda>arg. nullish (arg_value arg)) args;
          arg_ranges = map arg_range args;
          arg_clipmodes = map arg_clipmode args
      in [(''TYPE'', JSString arg_types)]
         @ (if \<not> allNull arg_ranges
            then [(''RANGE'', JSArray (map (or_null serializeRange) arg_ranges))] else [])
         @ (if \<not> allNull arg_clipmodes
            then [(''CLIPMODE'', JSArray (map (or_null JSString) arg_clipmodes))] else [])
         @ (if acc \<noteq> None \<and> \<not> allNull arg_values \<and> (acc = Some 1 \<or> acc = Some 3)
            then [(''VALUE'', JSArray (map (or_null (\<lambda>v. v)) arg_values))] else []))"

fun serialize :: "parents \<Rightarrow> OSCNode \<Rightarrow> (string \<times> jsval) list"
  and serialize_children ::
    "parents \<Rightarrow> OSCNode \<Rightarrow> (string \<times> OSCNode) list \<Rightarrow> (string \<times> jsval) list"
where
  "serialize ps (OSCNode nm m cs) =
     (let this = OSCNode nm m cs;
          full_path = assembleFullPath ps this
      in [(''FULL_PATH'', JSString (if full_path \<noteq> [] then full_path else ''/''))]
         @ (case description m of
              Some d \<Rightarrow> if d \<noteq> [] then [(''DESCRIPTION'', JSString d)] else []
            | None \<Rightarrow> [])
         @ (case access m of
              Some a \<Rightarrow> [(''ACCESS'', JSNumber a)]
            | None \<Rightarrow> if isContainer this then [(''ACCESS'', JSNumber NO_VALUE)] else [])
         @ (case tags m of Some ts \<Rightarrow> [(''TAGS'', JSArray (map JSString ts))] | None \<Rightarrow> [])
         @ (case critical m of Some c \<Rightarrow> [(''CRITICAL'', JSBoolean c)] | None \<Rightarrow> [])
         @ (if length cs > 0
            then [(''CONTENTS'', JSObject (serialize_children ps this cs))] else [])
         @ (case arguments m of Some args \<Rightarrow> serialize_arguments (access m) args | None \<Rightarrow> []))"
| "serialize_children ps this [] = []"
| "serialize_children ps this ((nm, node) # rest) =
     (nm, JSObject (serialize ((this, nm) # ps) node)) # serialize_children ps this rest"

section \<open>OSCQueryServer.js\<close>

text \<open>The options object of the constructor; \<open>None\<close> is an option that was not given.\<close>

record server_opts =
  httpPort :: "int option"
  oscPort :: "int option"
  bindAddress :: "string option"
  oscQueryHostName :: "string option"
  serviceName :: "string option"
  rootDescription :: "string option"
  oscIp :: "string option"
  oscTransport :: "string option"

record OSCQueryServer =
  opts :: server_opts
  root :: OSCNode

text \<open>
  \<^verbatim>\<open>a || b\<close> on optional strings and numbers: \<^verbatim>\<open>undefined\<close>, the empty string and
  \<open>0\<close> are falsy.
\<close>

definition truthy_string :: "string option \<Rightarrow> bool" where
  "truthy_string s = (s \<noteq> None \<and> s \<noteq> Some [])"

definition truthy_number :: "int option \<Rightarrow> bool" where
  "truthy_number n = (n \<noteq> None \<and> n \<noteq> Some 0)"

definition string_or :: "string option \<Rightarrow> string option \<Rightarrow> string option" where
  "string_or a b = (if truthy_string a then a else b)"

definition number_or :: "int option \<Rightarrow> int option \<Rightarrow> int option" where
  "number_or a b = (if truthy_number a then a else b)"

definition js_string :: "string option \<Rightarrow> jsval" where
  "js_string s = (case s of None \<Rightarrow> JSUndefined | Some t \<Rightarrow> JSString t)"

definition js_number :: "int option \<Rightarrow> jsval" where
  "js_number n = (case n of None \<Rightarrow> JSUndefined | Some k \<Rightarrow> JSNumber k)"

definition EXTENSIONS :: jsval where
  "EXTENSIONS = JSObject
     [(''ACCESS'', JSBoolean True), (''VALUE'', JSBoolean True), (''RANGE'', JSBoolean True),
      (''DESCRIPTION'', JSBoolean True), (''TAGS'', JSBoolean True),
      (''CRITICAL'', JSBoolean True), (''CLIPMODE'', JSBoolean True)]"

definition VALID_ATTRIBUTES :: "string list" where
  "VALID_ATTRIBUTES =
     [''FULL_PATH'', ''CONTENTS'', ''TYPE'', ''ACCESS'', ''RANGE'', ''DESCRIPTION'', ''TAGS'',
      ''CRITICAL'', ''CLIPMODE'', ''VALUE'', ''HOST_INFO'']"

definition new_OSCQueryServer :: "server_opts \<Rightarrow> OSCQueryServer" where
  "new_OSCQueryServer options =
     \<lparr>opts = options,
      root = setOpts (new_OSCNode [])
        (no_opts\<lparr>description := string_or (rootDescription options) (Some ''root node''),
                 access := Some NO_VALUE\<rparr>)\<rparr>"

text \<open>
  The response object: the status code (200 unless set), the headers set, and the JSON
  text written (\<open>None\<close> when nothing was written).
\<close>

record response =
  statusCode :: nat
  headers :: "(string \<times> string) list"
  body :: "json option"

definition end_with_status :: "nat \<Rightarrow> response" where
  "end_with_status code = \<lparr>statusCode = code, headers = [], body = None\<rparr>"

text \<open>
  \<^verbatim>\<open>respondJson(json, res)\<close>; \<^verbatim>\<open>res.write(undefined)\<close> raises a \<^verbatim>\<open>TypeError\<close>.
\<close>

definition respondJson :: "jsval \<Rightarrow> error + response" where
  "respondJson v =
     (case JSON_stringify v of
        None \<Rightarrow> Inl TypeError
      | Some j \<Rightarrow>
          Inr \<lparr>statusCode = 200, headers = [(''Content-Type'', ''application/json'')],
               body = Some j\<rparr>)"

text \<open>
  The loop that walks from a node down a list of path components, as \<^verbatim>\<open>_handleGet\<close>
  and \<^verbatim>\<open>_getNodeForPath\<close> both have it.  \<open>Missing\<close>: some component is not a child
  (\<^verbatim>\<open>hasChild\<close> is false).  \<open>NotANode\<close>: the last component is a name inherited from
  \<^verbatim>\<open>Object.prototype\<close>, so the loop ends at a value that is not an \<^verbatim>\<open>OSCNode\<close>.  When such
  a name is followed by further components, calling \<^verbatim>\<open>hasChild\<close> on that value raises a
  \<^verbatim>\<open>TypeError\<close>.
\<close>

datatype lookup = Missing | NotANode | Found parents OSCNode

fun descend :: "parents \<Rightarrow> OSCNode \<Rightarrow> string list \<Rightarrow> error + lookup" where
  "descend ps node [] = Inr (Found ps node)"
| "descend ps node (path_component # rest) =
     (if hasChild node path_component then
        (case getChild node path_component of
           Some child \<Rightarrow> descend ((node, path_component) # ps) child rest
         | None \<Rightarrow> if rest = [] then Inr NotANode else Inl TypeError)
      else Inr Missing)"

text \<open>\<^verbatim>\<open>path.split("/").filter(p => p !== "")\<close>\<close>

definition path_split :: "string \<Rightarrow> string list" where
  "path_split path = filter (\<lambda>p. p \<noteq> []) (split path ''/'')"

definition getNodeForPath :: "OSCQueryServer \<Rightarrow> string \<Rightarrow> error + lookup" where
  "getNodeForPath this path = descend [] (root this) (path_split path)"

definition hostInfo :: "server_opts \<Rightarrow> jsval" where
  "hostInfo options = JSObject
     [(''NAME'', js_string (oscQueryHostName options)),
      (''EXTENSIONS'', EXTENSIONS),
      (''OSC_IP'',
         js_string (string_or (oscIp options) (string_or (bindAddress options) (Some ''0.0.0.0'')))),
      (''OSC_PORT'', js_number (number_or (oscPort options) (httpPort options))),
      (''OSC_TRANSPORT'', js_string (string_or (oscTransport options) (Some ''UDP'')))]"

text \<open>
  \<^verbatim>\<open>_handleGet(url, res)\<close>, given \<^verbatim>\<open>url.pathname\<close> and \<^verbatim>\<open>url.search\<close>.  The URL
  parser that produces the two from the request line is a library and is not part of the
  model: a GET on a path is a call with that path as \<^verbatim>\<open>url.pathname\<close>, and a selector
  \<open>q\<close> is the search string \<^verbatim>\<open>?\<close>\<open>q\<close>.  A value that is not an \<^verbatim>\<open>OSCNode\<close> has no
  \<^verbatim>\<open>serialize\<close> method, so ending the walk there raises a \<^verbatim>\<open>TypeError\<close>.
\<close>

definition select_attribute :: "parents \<Rightarrow> OSCNode \<Rightarrow> string \<Rightarrow> error + response" where
  "select_attribute ps node query =
     (let serialized = serialize ps node;
          acc = get_property serialized ''ACCESS''
      in if acc \<noteq> JSUndefined \<and> (acc = JSNumber 0 \<or> acc = JSNumber 2) \<and> query = ''VALUE''
         then Inr (end_with_status 204)
         else respondJson (JSObject [(query, get_property serialized query)]))"

definition handleGet :: "OSCQueryServer \<Rightarrow> string \<Rightarrow> string \<Rightarrow> error + response" where
  "handleGet this pathname search =
     (let query = (if length search > 0 then Some (drop 1 search) else None);
          path_components = path_split pathname
      in if (case query of Some q \<Rightarrow> q \<noteq> [] \<and> q \<notin> set VALID_ATTRIBUTES | None \<Rightarrow> False)
         then Inr (end_with_status 400)
         else if query = Some ''HOST_INFO'' then respondJson (hostInfo (opts this))
         else
           (case descend [] (root this) path_components of
              Inl e \<Rightarrow> Inl e
            | Inr Missing \<Rightarrow> Inr (end_with_status 404)
            | Inr NotANode \<Rightarrow> Inl TypeError
            | Inr (Found ps node) \<Rightarrow>
                (case query of
                   None \<Rightarrow> respondJson (JSObject (serialize ps node))
                 | Some q \<Rightarrow>
                     if q = [] then respondJson (JSObject (serialize ps node))
                     else select_attribute ps node q)))"

text \<open>
  The mutators return the server as the call leaves it, with the exception raised, if any.
\<close>

type_synonym outcome = "error option \<times> OSCQueryServer"

text \<open>
  The loop of \<^verbatim>\<open>addMethod\<close>: \<^verbatim>\<open>getOrCreateChild\<close> adds a child when \<^verbatim>\<open>hasChild\<close> is
  false and returns \<^verbatim>\<open>this._children[path]\<close>.  When that is not an \<^verbatim>\<open>OSCNode\<close>, the next
  call on it (\<^verbatim>\<open>getOrCreateChild\<close> or \<^verbatim>\<open>setOpts\<close>) raises a \<^verbatim>\<open>TypeError\<close>; the tree is
  then as the loop left it.
\<close>

fun addMethod_loop :: "parents \<Rightarrow> OSCNode \<Rightarrow> string list \<Rightarrow> OSCNode + (parents \<times> OSCNode)" where
  "addMethod_loop ps node [] = Inr (ps, node)"
| "addMethod_loop ps node (path_component # rest) =
     (if \<not> hasChild node path_component then
        (let child = new_OSCNode path_component;
             node1 = set_children node (children node @ [(path_component, child)])
         in addMethod_loop ((node1, path_component) # ps) child rest)
      else
        (case getChild node path_component of
           Some child \<Rightarrow> addMethod_loop ((node, path_component) # ps) child rest
         | None \<Rightarrow> Inl (rebuild ps node)))"

definition addMethod :: "string \<Rightarrow> method_opts \<Rightarrow> OSCQueryServer \<Rightarrow> outcome" where
  "addMethod path params this =
     (case addMethod_loop [] (root this) (path_split path) of
        Inl root1 \<Rightarrow> (Some TypeError, this\<lparr>root := root1\<rparr>)
      | Inr (ps, node) \<Rightarrow> (None, this\<lparr>root := rebuild ps (setOpts node params)\<rparr>))"

text \<open>
  The loop of \<^verbatim>\<open>removeMethod\<close>: while the node has a parent and is empty, remove it from
  the parent (by the node's name) and go on with the parent.
\<close>

fun removeMethod_loop :: "parents \<Rightarrow> OSCNode \<Rightarrow> OSCNode" where
  "removeMethod_loop [] node = node"
| "removeMethod_loop ((parent, key) # ps) node =
     (if isEmpty node
      then removeMethod_loop ps
             (removeChild (set_children parent (AList.update key node (children parent)))
                (name node))
      else rebuild ((parent, key) # ps) node)"

definition removeMethod :: "string \<Rightarrow> OSCQueryServer \<Rightarrow> outcome" where
  "removeMethod path this =
     (case getNodeForPath this path of
        Inl e \<Rightarrow> (Some e, this)
      | Inr Missing \<Rightarrow> (None, this)
      | Inr NotANode \<Rightarrow> (Some TypeError, this)
      | Inr (Found ps node) \<Rightarrow>
          (None, this\<lparr>root := removeMethod_loop ps (setOpts node no_opts)\<rparr>))"

definition setValue :: "string \<Rightarrow> int \<Rightarrow> jsval \<Rightarrow> OSCQueryServer \<Rightarrow> outcome" where
  "setValue path arg_index v this =
     (case getNodeForPath this path of
        Inl e \<Rightarrow> (Some e, this)
      | Inr Missing \<Rightarrow> (None, this)
      | Inr NotANode \<Rightarrow> (Some TypeError, this)
      | Inr (Found ps node) \<Rightarrow>
          (case node_setValue node arg_index v of
             Inl e \<Rightarrow> (Some e, this)
           | Inr node1 \<Rightarrow> (None, this\<lparr>root := rebuild ps node1\<rparr>)))"

definition unsetValue :: "string \<Rightarrow> int \<Rightarrow> OSCQueryServer \<Rightarrow> outcome" where
  "unsetValue path arg_index this =
     (case getNodeForPath this path of
        Inl e \<Rightarrow> (Some e, this)
      | Inr Missing \<Rightarrow> (None, this)
      | Inr NotANode \<Rightarrow> (Some TypeError, this)
      | Inr (Found ps node) \<Rightarrow>
          (case node_unsetValue node arg_index of
             Inl e \<Rightarrow> (Some e, this)
           | Inr node1 \<Rightarrow> (None, this\<lparr>root := rebuild ps node1\<rparr>)))"

section \<open>Notions used to state the properties\<close>

text \<open>The value of \<^verbatim>\<open>s || d\<close> for an optional string \<open>s\<close> and a default \<open>d\<close>.\<close>

definition or_default :: "string option \<Rightarrow> string \<Rightarrow> string" where
  "or_default s d = (case s of None \<Rightarrow> d | Some t \<Rightarrow> if t = [] then d else t)"

text \<open>
  The access of a node as \<^verbatim>\<open>serialize()\<close> reports it: the access set, \<^verbatim>\<open>NO_VALUE\<close> for
  a container that has none, nothing otherwise.
\<close>

definition serialized_access :: "OSCNode \<Rightarrow> int option" where
  "serialized_access x =
     (case access (meta x) of
        Some a \<Rightarrow> Some a
      | None \<Rightarrow> if isContainer x then Some NO_VALUE else None)"

text \<open>The JSON text of an array entry: \<^verbatim>\<open>null\<close> for \<^verbatim>\<open>undefined\<close>.\<close>

definition json_or_null :: "jsval \<Rightarrow> json" where
  "json_or_null v = (case JSON_stringify v of None \<Rightarrow> JNull | Some j \<Rightarrow> j)"

text \<open>The node a walk ended at, if it ended at a node.\<close>

fun found_node :: "error + lookup \<Rightarrow> OSCNode option" where
  "found_node (Inr (Found ps node)) = Some node"
| "found_node r = None"

text \<open>
  Every child is stored under its own name, throughout the tree.  \<^verbatim>\<open>getOrCreateChild\<close>
  creates children that way, so every tree the server builds is of this kind.
\<close>

fun keyed_by_name :: "OSCNode \<Rightarrow> bool"
  and children_keyed_by_name :: "(string \<times> OSCNode) list \<Rightarrow> bool"
where
  "keyed_by_name (OSCNode nm m cs) = children_keyed_by_name cs"
| "children_keyed_by_name [] = True"
| "children_keyed_by_name ((k, c) # rest) =
     (name c = k \<and> keyed_by_name c \<and> children_keyed_by_name rest)"

text \<open>
  The full path of the node at a list of path components: \<^verbatim>\<open>/\<close> for the root,
  otherwise each component preceded by \<^verbatim>\<open>/\<close>.
\<close>

definition full_path_of :: "string list \<Rightarrow> string" where
  "full_path_of components =
     (if components = [] then ''/'' else concat (map (\<lambda>c. CHR ''/'' # c) components))"

text \<open>
  The cleanup rule, from the root down: clear the node at the path; on the way back,
  delete a child that is left empty and keep one that is not.  A path that leads to no
  node changes nothing.
\<close>

fun prune :: "string list \<Rightarrow> OSCNode \<Rightarrow> OSCNode" where
  "prune [] node = setOpts node no_opts"
| "prune (k # ks) node =
     (case getChild node k of
        None \<Rightarrow> node
      | Some child \<Rightarrow>
          (let child1 = prune ks child
           in if isEmpty child1
              then set_children node (AList.delete k (children node))
              else set_children node (AList.update k child1 (children node))))"

text \<open>
  The tree \<^verbatim>\<open>addMethod\<close> builds, from the root down: follow or create the child for each
  component and set the options of the last node.
\<close>

fun add_at :: "string list \<Rightarrow> method_opts \<Rightarrow> OSCNode \<Rightarrow> OSCNode" where
  "add_at [] params node = setOpts node params"
| "add_at (k # ks) params node =
     (if \<not> hasChild node k
      then set_children node (children node @ [(k, add_at ks params (new_OSCNode k))])
      else
        (case getChild node k of
           None \<Rightarrow> node
         | Some child \<Rightarrow>
             set_children node (AList.update k (add_at ks params child) (children node))))"

text \<open>
  A pattern of the documented shape: no \<^verbatim>\<open>(!?\<close> token, or one token followed by an
  exclude string that has no \<^verbatim>\<open>)\<close> but possibly a closing one at the very end.
\<close>

definition documented_pattern :: "string \<Rightarrow> bool" where
  "documented_pattern p =
     (\<not> sublist ''(!?'' p
      \<or> (\<not> sublist ''(!?'' (after_token p) \<and> CHR '')'' \<notin> set (butlast (after_token p))))"

text \<open>
  The chain of parents of a node in a tree whose children are stored under their names:
  the node hangs under its name in its parent, and so on up to the root.
\<close>

fun parents_keyed_by_name :: "parents \<Rightarrow> OSCNode \<Rightarrow> bool" where
  "parents_keyed_by_name [] node = True"
| "parents_keyed_by_name ((parent, key) # ps) node =
     (name node = key \<and> keyed_by_name parent \<and> parents_keyed_by_name ps parent)"

text \<open>A call of one of the four mutators of the server, and a sequence of calls.\<close>

datatype server_op =
    AddMethod string method_opts
  | RemoveMethod string
  | SetValue string int jsval
  | UnsetValue string int

fun apply_server_op :: "OSCQueryServer \<Rightarrow> server_op \<Rightarrow> OSCQueryServer" where
  "apply_server_op this (AddMethod p spec) = snd (addMethod p spec this)"
| "apply_server_op this (RemoveMethod p) = snd (removeMethod p this)"
| "apply_server_op this (SetValue p i v) = snd (setValue p i v this)"
| "apply_server_op this (UnsetValue p i) = snd (unsetValue p i this)"

subsection \<open>Example inputs\<close>

text \<open>
  The options of the usage example in OSCQueryServer.js
  (\<^verbatim>\<open>new OSCQueryServer({ httpPort: 8080, oscPort: 9000 })\<close>), and the two methods of
  scenarios S1 and S3 of the specification.
\<close>

definition example_opts :: server_opts where
  "example_opts =
     \<lparr>httpPort = Some 8080, oscPort = Some 9000, bindAddress = None,
      oscQueryHostName = None, serviceName = None, rootDescription = None, oscIp = None,
      oscTransport = None\<rparr>"

definition chatbox_input :: method_opts where
  "chatbox_input =
     \<lparr>description = None, access = Some 2, tags = None, critical = None,
      arguments = Some
        [\<lparr>arg_type = OSCType ''s'', arg_value = JSUndefined, arg_range = None,
           arg_clipmode = None\<rparr>,
         \<lparr>arg_type = OSCType ''T'', arg_value = JSUndefined, arg_range = None,
           arg_clipmode = None\<rparr>]\<rparr>"

definition ranged_float :: method_opts where
  "ranged_float =
     \<lparr>description = None, access = Some 3, tags = None, critical = None,
      arguments = Some
        [\<lparr>arg_type = OSCType ''f'', arg_value = JSUndefined,
           arg_range = Some (Range (JSNumber 0) (JSNumber 1) JSUndefined),
           arg_clipmode = None\<rparr>]\<rparr>"

definition example_server :: OSCQueryServer where
  "example_server = snd (addMethod ''/a/b/c'' ranged_float (new_OSCQueryServer example_opts))"

text \<open>The same server with a second method, \<^verbatim>\<open>/a/d\<close>, beside \<^verbatim>\<open>/a/b/c\<close>.\<close>

definition example_server_two :: OSCQueryServer where
  "example_server_two = snd (addMethod ''/a/d'' chatbox_input example_server)"

section \<open>Properties of the subscription filter\<close>

lemma startsWith_prefix: "startsWith s p = prefix p s"
  by (induction s p rule: startsWith.induct) auto

lemma includesStr_sublist: "includesStr s sub = sublist sub s"
  by (induction s sub rule: includesStr.induct) (auto simp: startsWith_prefix sublist_Cons_right)

lemma endsWith_suffix: "endsWith s suf = suffix suf s"
  by (simp add: endsWith_def startsWith_prefix suffix_to_prefix)

lemma replace_paren: "replace s '')'' [] = remove1 (CHR '')'') s"
  by (induction s) auto

lemma split_from_token:
  "split_from ''(!?'' cur s =
     (cur @ before_token s) #
       (if sublist ''(!?'' s then split_from ''(!?'' [] (after_token s) else [])"
proof (induction "''(!?''" cur s rule: split_from.induct)
  case (1 cur)
  then show ?case by simp
next
  case (2 cur c cs)
  then show ?case
    by (auto simp: startsWith_prefix sublist_Cons_right numeral_2_eq_2)
qed

lemma at_index_split0: "at_index (split p ''(!?'') 0 = Some (before_token p)"
  by (subst split_def, simp, subst split_from_token, simp)

lemma at_index_split1:
  "sublist ''(!?'' p \<Longrightarrow>
     at_index (split p ''(!?'') (Suc 0) = Some (before_token (after_token p))"
  apply (subst split_def, simp, subst split_from_token, simp)
  apply (subst split_from_token, simp)
  done

text \<open>\<^verbatim>\<open>pathMatches\<close> never raises, and decides the grammar the code implements.\<close>

lemma pathMatches_code: "pathMatches a p = Inr (code_pattern_matches p a)"
  unfolding pathMatches_def code_pattern_matches_def
  by (auto simp: includesStr_sublist startsWith_prefix endsWith_suffix at_index_split0
      at_index_split1 replace_paren slice_0_minus1_def Let_def)

lemma anyPathMatches_code:
  "anyPathMatches a ps = Inr (\<exists>p\<in>set ps. code_pattern_matches p a)"
  by (induction ps) (auto simp: pathMatches_code)

text \<open>
  C4, as amended.  For every filter state and every address, \<^verbatim>\<open>shouldProcessMessage\<close>
  returns (it never raises), and it accepts the address if and only if
  \<^verbatim>\<open>subscribeToAll\<close> is true or some subscribed pattern \<open>p\<close> matches: \<open>p\<close> equals the
  address; or \<open>p\<close> ends with \<^verbatim>\<open>*\<close> and the address starts with \<open>p\<close> without that last
  character; or \<open>p\<close> contains the token \<^verbatim>\<open>(!?\<close>, the address starts with the part of \<open>p\<close>
  before the first token and does not contain the exclude string, which is the piece of
  \<open>p\<close> between the first token and the next token (or the end of \<open>p\<close>) with its first
  \<^verbatim>\<open>)\<close> deleted.
\<close>

theorem shouldProcessMessage_grammar:
  "shouldProcessMessage this a =
     Inr (subscribeToAll this \<or> (\<exists>p\<in>set (subscribedPaths this). code_pattern_matches p a))"
  by (simp add: shouldProcessMessage_def anyPathMatches_code)

theorem shouldProcessMessage_grammar_witness:
  "shouldProcessMessage
     \<lparr>subscribedPaths = [''/avatar/parameters/(!?vrcft)''], subscribeToAll = False\<rparr>
     ''/avatar/parameters/vrcft/eye'' = Inr False
   \<and> \<not> code_pattern_matches ''/avatar/parameters/(!?vrcft)'' ''/avatar/parameters/vrcft/eye''"
  using shouldProcessMessage_grammar
    [of "\<lparr>subscribedPaths = [''/avatar/parameters/(!?vrcft)''], subscribeToAll = False\<rparr>"
        "''/avatar/parameters/vrcft/eye''"]
  by (simp add: code_pattern_matches_def sublist_Cons_right)

text \<open>
  The grammar as the specification words it (the exclude string ends at the next \<^verbatim>\<open>)\<close>)
  is not what the code decides: with the only pattern \<^verbatim>\<open>/a/(!?x)y\<close>, the exclude string of
  the code is \<^verbatim>\<open>xy\<close>, and the address \<^verbatim>\<open>/a/x\<close> is accepted although it contains \<^verbatim>\<open>x\<close>.
\<close>

theorem spec_grammar_counterexample:
  "shouldProcessMessage \<lparr>subscribedPaths = [''/a/(!?x)y''], subscribeToAll = False\<rparr> ''/a/x''
     = Inr True
   \<and> \<not> spec_pattern_matches ''/a/(!?x)y'' ''/a/x''"
  by code_simp

text \<open>On every reachable state the flag says that the set is empty.\<close>

lemma filter_ops_invariant:
  "subscribeToAll this = (subscribedPaths this = []) \<Longrightarrow>
     subscribeToAll (foldl apply_filter_op this ops)
       = (subscribedPaths (foldl apply_filter_op this ops) = [])"
proof (induction ops arbitrary: this)
  case Nil
  then show ?case by simp
next
  case (Cons x ops)
  have "subscribeToAll (apply_filter_op this x) = (subscribedPaths (apply_filter_op this x) = [])"
    using Cons.prems
    by (cases x) (auto simp: subscribe_def unsubscribe_def subscribeToAllPaths_def Set_add_def
        Set_delete_def Let_def)
  then show ?case using Cons.IH by simp
qed

lemma run_filter_ops_invariant:
  "subscribeToAll (run_filter_ops ops) = (subscribedPaths (run_filter_ops ops) = [])"
  unfolding run_filter_ops_def
  by (rule filter_ops_invariant) (simp add: new_VRChatOSCQuery_def)

text \<open>
  C9.  After every finite sequence of \<^verbatim>\<open>subscribe\<close>, \<^verbatim>\<open>unsubscribe\<close> and
  \<^verbatim>\<open>subscribeToAllPaths\<close> calls on a freshly constructed filter, an empty pattern set
  implies accept-all mode; a further \<^verbatim>\<open>unsubscribe\<close> removes the pattern and leaves
  accept-all enabled exactly when the set is then empty (on any state, it enables the flag
  when the set becomes empty and leaves it as it was otherwise); and the fresh filter has
  accept-all enabled and an empty set.
\<close>

theorem accept_all_when_unsubscribed:
  "(subscribedPaths (run_filter_ops ops) = [] \<longrightarrow> subscribeToAll (run_filter_ops ops))
   \<and> subscribedPaths (unsubscribe p this) = removeAll p (subscribedPaths this)
   \<and> subscribeToAll (unsubscribe p this)
       = (subscribeToAll this \<or> subscribedPaths (unsubscribe p this) = [])
   \<and> subscribeToAll (unsubscribe p (run_filter_ops ops))
       = (subscribedPaths (unsubscribe p (run_filter_ops ops)) = [])
   \<and> subscribeToAll new_VRChatOSCQuery
   \<and> subscribedPaths new_VRChatOSCQuery = []"
proof -
  have inv: "subscribeToAll (run_filter_ops ops) = (subscribedPaths (run_filter_ops ops) = [])"
    by (rule run_filter_ops_invariant)
  have step: "subscribeToAll (unsubscribe p (run_filter_ops ops))
       = (subscribedPaths (unsubscribe p (run_filter_ops ops)) = [])"
    using inv by (auto simp: unsubscribe_def Set_delete_def Let_def)
  have any: "subscribeToAll (unsubscribe p this)
       = (subscribeToAll this \<or> subscribedPaths (unsubscribe p this) = [])"
    by (auto simp: unsubscribe_def Set_delete_def Let_def)
  have del: "subscribedPaths (unsubscribe p this) = removeAll p (subscribedPaths this)"
    by (auto simp: unsubscribe_def Set_delete_def Let_def)
  show ?thesis using inv step any del by (simp add: new_VRChatOSCQuery_def)
qed

theorem accept_all_when_unsubscribed_witness:
  "subscribedPaths (run_filter_ops [Subscribe ''/input/*'', Unsubscribe ''/input/*'']) = []
   \<and> subscribeToAll (run_filter_ops [Subscribe ''/input/*'', Unsubscribe ''/input/*''])
   \<and> \<not> subscribeToAll (run_filter_ops [Subscribe ''/input/*''])
   \<and> subscribeToAll (unsubscribe ''/input/*'' (run_filter_ops [Subscribe ''/input/*'']))"
  using accept_all_when_unsubscribed
    [of "[Subscribe ''/input/*'', Unsubscribe ''/input/*'']" "''/input/*''"
        "run_filter_ops [Subscribe ''/input/*'']"]
  by (simp add: run_filter_ops_def new_VRChatOSCQuery_def subscribe_def unsubscribe_def
      Set_add_def Set_delete_def)

lemma before_token_no_token: "\<not> sublist ''(!?'' s \<Longrightarrow> before_token s = s"
  by (induction s) (auto simp: sublist_Cons_right)

lemma remove1_closing:
  "CHR '')'' \<notin> set (butlast s) \<Longrightarrow>
     remove1 (CHR '')'') s = takeWhile (\<lambda>c. c \<noteq> CHR '')'') s"
  by (induction s) (auto split: if_splits)

text \<open>
  On a pattern of the documented shape the grammar of the code and the grammar as the
  specification words it agree.
\<close>

theorem documented_pattern_grammar:
  assumes "documented_pattern p"
  shows "code_pattern_matches p a = spec_pattern_matches p a"
proof (cases "sublist ''(!?'' p")
  case False
  then show ?thesis
    by (simp add: code_pattern_matches_def spec_pattern_matches_def)
next
  case True
  with assms have "\<not> sublist ''(!?'' (after_token p)"
    and "CHR '')'' \<notin> set (butlast (after_token p))"
    by (simp_all add: documented_pattern_def)
  then have "remove1 (CHR '')'') (before_token (after_token p))
      = takeWhile (\<lambda>c. c \<noteq> CHR '')'') (after_token p)"
    by (simp add: before_token_no_token remove1_closing)
  then show ?thesis
    by (simp add: code_pattern_matches_def spec_pattern_matches_def)
qed

theorem documented_pattern_grammar_witness:
  "documented_pattern ''/avatar/parameters/(!?vrcft)''
   \<and> code_pattern_matches ''/avatar/parameters/(!?vrcft)'' ''/avatar/parameters/mood''
   \<and> spec_pattern_matches ''/avatar/parameters/(!?vrcft)'' ''/avatar/parameters/mood''"
proof -
  have h: "documented_pattern ''/avatar/parameters/(!?vrcft)''"
    by code_simp
  have c: "code_pattern_matches ''/avatar/parameters/(!?vrcft)'' ''/avatar/parameters/mood''"
    by code_simp
  show ?thesis
    using h c documented_pattern_grammar [OF h, of "''/avatar/parameters/mood''"] by simp
qed

section \<open>Properties of the serializer\<close>

lemma allNull_iff: "allNull xs = (\<forall>x\<in>set xs. x = None)"
  by (induction xs) auto

lemma map_of_serialize_arguments_RANGE:
  "(map_of (serialize_arguments acc args) ''RANGE'' \<noteq> None)
     = (\<exists>a\<in>set args. arg_range a \<noteq> None)"
  by (auto simp: serialize_arguments_def Let_def allNull_iff)

lemma map_of_serialize_arguments_CLIPMODE:
  "(map_of (serialize_arguments acc args) ''CLIPMODE'' \<noteq> None)
     = (\<exists>a\<in>set args. arg_clipmode a \<noteq> None)"
  by (auto simp: serialize_arguments_def Let_def allNull_iff)

lemma map_of_serialize_arguments_VALUE:
  "map_of (serialize_arguments acc args) ''VALUE''
     = (if (\<exists>a\<in>set args. nullish (arg_value a) \<noteq> None) \<and> (acc = Some 1 \<or> acc = Some 3)
        then Some (JSArray (map (\<lambda>a. or_null (\<lambda>v. v) (nullish (arg_value a))) args))
        else None)"
  by (auto simp: serialize_arguments_def Let_def allNull_iff comp_def)

text \<open>The members of a serialized node that come before those of its arguments.\<close>

lemma map_of_serialize_late_key:
  assumes "key \<notin> {''FULL_PATH'', ''DESCRIPTION'', ''ACCESS'', ''TAGS'', ''CRITICAL'', ''CONTENTS''}"
  shows "map_of (serialize ps node) key
     = (case arguments (meta node) of
          None \<Rightarrow> None
        | Some args \<Rightarrow> map_of (serialize_arguments (access (meta node)) args) key)"
  using assms
  by (cases node) (auto simp: Let_def map_add_def split: option.splits)

text \<open>
  C6.  For a node with arguments, the object \<^verbatim>\<open>serialize()\<close> returns has the key
  \<^verbatim>\<open>RANGE\<close> if and only if some argument has a range that is not null, the key
  \<^verbatim>\<open>CLIPMODE\<close> if and only if some argument has a clipmode that is not null, and the
  key \<^verbatim>\<open>VALUE\<close> if and only if some argument has a value (one that is neither
  \<^verbatim>\<open>undefined\<close> nor \<^verbatim>\<open>null\<close>) and the node's access is \<^verbatim>\<open>READONLY\<close> or
  \<^verbatim>\<open>READWRITE\<close>.  So a key whose per-argument entries would all be null is absent.
\<close>

theorem serialize_optional_keys:
  assumes "arguments (meta node) = Some args"
  shows "((map_of (serialize ps node) ''RANGE'' \<noteq> None)
            = (\<exists>a\<in>set args. arg_range a \<noteq> None))
       \<and> ((map_of (serialize ps node) ''CLIPMODE'' \<noteq> None)
            = (\<exists>a\<in>set args. arg_clipmode a \<noteq> None))
       \<and> ((map_of (serialize ps node) ''VALUE'' \<noteq> None)
            = ((\<exists>a\<in>set args. arg_value a \<noteq> JSUndefined \<and> arg_value a \<noteq> JSNull)
               \<and> (access (meta node) = Some READONLY \<or> access (meta node) = Some READWRITE)))"
proof -
  have r: "map_of (serialize ps node) ''RANGE''
      = map_of (serialize_arguments (access (meta node)) args) ''RANGE''"
    using assms by (simp add: map_of_serialize_late_key)
  have c: "map_of (serialize ps node) ''CLIPMODE''
      = map_of (serialize_arguments (access (meta node)) args) ''CLIPMODE''"
    using assms by (simp add: map_of_serialize_late_key)
  have v: "map_of (serialize ps node) ''VALUE''
      = map_of (serialize_arguments (access (meta node)) args) ''VALUE''"
    using assms by (simp add: map_of_serialize_late_key)
  show ?thesis
    unfolding r c v map_of_serialize_arguments_RANGE map_of_serialize_arguments_CLIPMODE
      map_of_serialize_arguments_VALUE
    by (auto simp: nullish_def READONLY_def READWRITE_def split: if_splits)
qed

theorem serialize_optional_keys_witness:
  "arguments (meta (OSCNode ''c'' ranged_float []))
     = Some [\<lparr>arg_type = OSCType ''f'', arg_value = JSUndefined,
              arg_range = Some (Range (JSNumber 0) (JSNumber 1) JSUndefined),
              arg_clipmode = None\<rparr>]
   \<and> map_of (serialize [] (OSCNode ''c'' ranged_float [])) ''RANGE'' \<noteq> None
   \<and> map_of (serialize [] (OSCNode ''c'' ranged_float [])) ''CLIPMODE'' = None
   \<and> map_of (serialize [] (OSCNode ''c'' ranged_float [])) ''VALUE'' = None"
proof -
  have h: "arguments (meta (OSCNode ''c'' ranged_float []))
     = Some [\<lparr>arg_type = OSCType ''f'', arg_value = JSUndefined,
              arg_range = Some (Range (JSNumber 0) (JSNumber 1) JSUndefined),
              arg_clipmode = None\<rparr>]"
    by (simp add: ranged_float_def)
  show ?thesis
    using h serialize_optional_keys [OF h, of "[]"] by simp
qed

section \<open>Properties of the HTTP endpoint\<close>

lemma JSON_stringify_hostInfo:
  "JSON_stringify (hostInfo options) = Some (JObj
     ((case oscQueryHostName options of None \<Rightarrow> [] | Some n \<Rightarrow> [(''NAME'', JStr n)])
      @ [(''EXTENSIONS'', JObj
           [(''ACCESS'', JBool True), (''VALUE'', JBool True), (''RANGE'', JBool True),
            (''DESCRIPTION'', JBool True), (''TAGS'', JBool True), (''CRITICAL'', JBool True),
            (''CLIPMODE'', JBool True)]),
         (''OSC_IP'', JStr (or_default (oscIp options)
                             (or_default (bindAddress options) ''0.0.0.0'')))]
      @ (case number_or (oscPort options) (httpPort options) of
           None \<Rightarrow> []
         | Some n \<Rightarrow> [(''OSC_PORT'', JNum n)])
      @ [(''OSC_TRANSPORT'', JStr (or_default (oscTransport options) ''UDP''))]))"
  by (simp add: hostInfo_def EXTENSIONS_def js_string_def js_number_def string_or_def
      truthy_string_def or_default_def split: option.splits)

text \<open>
  C8, as amended.  For every server and every request path, a GET whose selector is
  \<^verbatim>\<open>HOST_INFO\<close> returns status 200 with a JSON object that has \<^verbatim>\<open>EXTENSIONS\<close> with
  all seven flags true, \<^verbatim>\<open>OSC_IP\<close> (the \<^verbatim>\<open>oscIp\<close> option, else \<^verbatim>\<open>bindAddress\<close>, else
  \<^verbatim>\<open>0.0.0.0\<close>) and \<^verbatim>\<open>OSC_TRANSPORT\<close> (\<^verbatim>\<open>UDP\<close> when not configured).  \<^verbatim>\<open>NAME\<close> is there
  only when \<^verbatim>\<open>oscQueryHostName\<close> is configured, and \<^verbatim>\<open>OSC_PORT\<close> only when
  \<^verbatim>\<open>oscPort\<close> or \<^verbatim>\<open>httpPort\<close> is.  The path is not resolved, so there is no 404.
\<close>

theorem get_HOST_INFO:
  "handleGet this pathname ''?HOST_INFO'' =
     Inr \<lparr>statusCode = 200, headers = [(''Content-Type'', ''application/json'')],
       body = Some (JObj
         ((case oscQueryHostName (opts this) of None \<Rightarrow> [] | Some n \<Rightarrow> [(''NAME'', JStr n)])
          @ [(''EXTENSIONS'', JObj
               [(''ACCESS'', JBool True), (''VALUE'', JBool True), (''RANGE'', JBool True),
                (''DESCRIPTION'', JBool True), (''TAGS'', JBool True),
                (''CRITICAL'', JBool True), (''CLIPMODE'', JBool True)]),
             (''OSC_IP'', JStr (or_default (oscIp (opts this))
                                 (or_default (bindAddress (opts this)) ''0.0.0.0'')))]
          @ (case number_or (oscPort (opts this)) (httpPort (opts this)) of
               None \<Rightarrow> []
             | Some n \<Rightarrow> [(''OSC_PORT'', JNum n)])
          @ [(''OSC_TRANSPORT'', JStr (or_default (oscTransport (opts this)) ''UDP''))]))\<rparr>"
  by (simp add: handleGet_def VALID_ATTRIBUTES_def respondJson_def JSON_stringify_hostInfo
      del: JSON_stringify.simps)

theorem get_HOST_INFO_witness:
  "handleGet (new_OSCQueryServer (example_opts\<lparr>oscQueryHostName := Some ''MyCustomApp''\<rparr>))
       ''/does/not/exist'' ''?HOST_INFO'' =
     Inr \<lparr>statusCode = 200, headers = [(''Content-Type'', ''application/json'')],
       body = Some (JObj
         [(''NAME'', JStr ''MyCustomApp''),
          (''EXTENSIONS'', JObj
             [(''ACCESS'', JBool True), (''VALUE'', JBool True), (''RANGE'', JBool True),
              (''DESCRIPTION'', JBool True), (''TAGS'', JBool True),
              (''CRITICAL'', JBool True), (''CLIPMODE'', JBool True)]),
          (''OSC_IP'', JStr ''0.0.0.0''),
          (''OSC_PORT'', JNum 9000),
          (''OSC_TRANSPORT'', JStr ''UDP'')])\<rparr>"
  using get_HOST_INFO
    [of "new_OSCQueryServer (example_opts\<lparr>oscQueryHostName := Some ''MyCustomApp''\<rparr>)"
        "''/does/not/exist''"]
  by (simp add: new_OSCQueryServer_def example_opts_def or_default_def number_or_def
      truthy_number_def)

text \<open>
  With the options of the usage example (no \<^verbatim>\<open>oscQueryHostName\<close>), the response to
  \<^verbatim>\<open>GET /?HOST_INFO\<close> has no \<^verbatim>\<open>NAME\<close>: \<^verbatim>\<open>JSON.stringify\<close> leaves out a property whose
  value is \<^verbatim>\<open>undefined\<close>.
\<close>

theorem host_info_without_name_counterexample:
  "handleGet (new_OSCQueryServer example_opts) ''/'' ''?HOST_INFO'' =
     Inr \<lparr>statusCode = 200, headers = [(''Content-Type'', ''application/json'')],
       body = Some (JObj
         [(''EXTENSIONS'', JObj
             [(''ACCESS'', JBool True), (''VALUE'', JBool True), (''RANGE'', JBool True),
              (''DESCRIPTION'', JBool True), (''TAGS'', JBool True),
              (''CRITICAL'', JBool True), (''CLIPMODE'', JBool True)]),
          (''OSC_IP'', JStr ''0.0.0.0''),
          (''OSC_PORT'', JNum 9000),
          (''OSC_TRANSPORT'', JStr ''UDP'')])\<rparr>"
  by (simp add: handleGet_def VALID_ATTRIBUTES_def respondJson_def hostInfo_def EXTENSIONS_def
      new_OSCQueryServer_def example_opts_def js_string_def js_number_def string_or_def
      number_or_def truthy_string_def truthy_number_def)

lemma found_nodeD: "found_node r = Some x \<Longrightarrow> \<exists>ps. r = Inr (Found ps x)"
  by (cases r rule: found_node.cases) auto

lemma get_property_ACCESS:
  "get_property (serialize ps x) ''ACCESS''
     = (case serialized_access x of None \<Rightarrow> JSUndefined | Some a \<Rightarrow> JSNumber a)"
  by (cases x)
    (auto simp: get_property_def serialized_access_def Let_def map_add_def NO_VALUE_def
      serialize_arguments_def split: option.splits)

lemma get_property_VALUE:
  "get_property (serialize ps x) ''VALUE''
     = (case arguments (meta x) of
          None \<Rightarrow> JSUndefined
        | Some args \<Rightarrow>
            if (\<exists>a\<in>set args. nullish (arg_value a) \<noteq> None)
               \<and> (access (meta x) = Some 1 \<or> access (meta x) = Some 3)
            then JSArray (map (\<lambda>a. or_null (\<lambda>v. v) (nullish (arg_value a))) args)
            else JSUndefined)"
  unfolding get_property_def
  by (subst map_of_serialize_late_key)
    (simp_all add: map_of_serialize_arguments_VALUE split: option.splits)

lemma JSON_elements_values:
  "JSON_elements (map (\<lambda>a. or_null (\<lambda>v. v) (nullish (arg_value a))) args)
     = map (\<lambda>a. json_or_null (arg_value a)) args"
  by (induction args) (auto simp: or_null_def nullish_def json_or_null_def)

text \<open>
  C1, as amended.  For every node \<open>x\<close> the tree has at the request path, a GET with
  selector \<^verbatim>\<open>VALUE\<close> returns status 204 with an empty body if and only if the access of
  \<open>x\<close> as serialized (a container without access counting as 0) is 0 or 2.  Otherwise it
  returns status 200 with a JSON object.  That object has the one member \<^verbatim>\<open>VALUE\<close>, the
  list of the stored argument values with \<^verbatim>\<open>null\<close> at every unset slot, when \<open>x\<close> has
  arguments, its access is 1 or 3 and at least one value is set; in every other case the
  object is empty.
\<close>

theorem get_VALUE:
  assumes "found_node (descend [] (root this) (path_split pathname)) = Some x"
  shows "handleGet this pathname ''?VALUE'' =
     (if serialized_access x = Some 0 \<or> serialized_access x = Some 2
      then Inr \<lparr>statusCode = 204, headers = [], body = None\<rparr>
      else Inr \<lparr>statusCode = 200, headers = [(''Content-Type'', ''application/json'')],
             body = Some (JObj
               (case arguments (meta x) of
                  None \<Rightarrow> []
                | Some args \<Rightarrow>
                    if (access (meta x) = Some 1 \<or> access (meta x) = Some 3)
                       \<and> (\<exists>a\<in>set args. arg_value a \<noteq> JSUndefined \<and> arg_value a \<noteq> JSNull)
                    then [(''VALUE'', JArr (map (\<lambda>a. json_or_null (arg_value a)) args))]
                    else []))\<rparr>)"
proof -
  obtain ps where "descend [] (root this) (path_split pathname) = Inr (Found ps x)"
    using assms by (auto dest: found_nodeD)
  then have q: "handleGet this pathname ''?VALUE'' = select_attribute ps x ''VALUE''"
    by (simp add: handleGet_def VALID_ATTRIBUTES_def)
  have n: "\<And>a. (nullish (arg_value a) \<noteq> None)
      = (arg_value a \<noteq> JSUndefined \<and> arg_value a \<noteq> JSNull)"
    by (simp add: nullish_def)
  show ?thesis
    unfolding q select_attribute_def Let_def get_property_ACCESS get_property_VALUE n
    by (auto simp: end_with_status_def respondJson_def JSON_elements_values
        split: option.splits)
qed

theorem get_VALUE_witness:
  "found_node (descend [] (root (snd (setValue ''/a/b/c'' 0 (JSNumber 5) example_server)))
       (path_split ''/a/b/c''))
     = Some (OSCNode ''c''
         \<lparr>description = None, access = Some 3, tags = None, critical = None,
          arguments = Some
            [\<lparr>arg_type = OSCType ''f'', arg_value = JSNumber 5,
               arg_range = Some (Range (JSNumber 0) (JSNumber 1) JSUndefined),
               arg_clipmode = None\<rparr>]\<rparr> [])
   \<and> handleGet (snd (setValue ''/a/b/c'' 0 (JSNumber 5) example_server)) ''/a/b/c'' ''?VALUE''
       = Inr \<lparr>statusCode = 200, headers = [(''Content-Type'', ''application/json'')],
              body = Some (JObj [(''VALUE'', JArr [JNum 5])])\<rparr>"
proof -
  have h: "found_node (descend [] (root (snd (setValue ''/a/b/c'' 0 (JSNumber 5) example_server)))
       (path_split ''/a/b/c''))
     = Some (OSCNode ''c''
         \<lparr>description = None, access = Some 3, tags = None, critical = None,
          arguments = Some
            [\<lparr>arg_type = OSCType ''f'', arg_value = JSNumber 5,
               arg_range = Some (Range (JSNumber 0) (JSNumber 1) JSUndefined),
               arg_clipmode = None\<rparr>]\<rparr> [])"
    by code_simp
  show ?thesis
    using h get_VALUE [OF h] by (simp add: serialized_access_def json_or_null_def)
qed

text \<open>
  After \<^verbatim>\<open>addMethod("/a/b/c", {access: 3, arguments: [{type: "f", range: ...}]})\<close> and no
  \<^verbatim>\<open>setValue\<close>, the access of the node is 3, and \<^verbatim>\<open>GET /a/b/c?VALUE\<close> returns status 200
  with the empty object: there is no \<^verbatim>\<open>VALUE\<close> list in the body.
\<close>

theorem get_VALUE_unset_counterexample:
  "found_node (descend [] (root example_server) (path_split ''/a/b/c''))
     = Some (OSCNode ''c'' ranged_float [])
   \<and> access ranged_float = Some 3
   \<and> handleGet example_server ''/a/b/c'' ''?VALUE''
       = Inr \<lparr>statusCode = 200, headers = [(''Content-Type'', ''application/json'')],
              body = Some (JObj [])\<rparr>"
  by code_simp

text \<open>
  C2, as amended.  For every GET request whose selector is a valid attribute other than
  \<^verbatim>\<open>HOST_INFO\<close>, whose path has a node, and that is not the 204 case of \<^verbatim>\<open>VALUE\<close>: when
  the serializer does not emit the selected attribute for that node, the response has
  status 200 and its body is the empty JSON object.  The selected key is not in it:
  \<^verbatim>\<open>JSON.stringify\<close> leaves out a property whose value is \<^verbatim>\<open>undefined\<close>.
\<close>

theorem get_attribute_not_emitted:
  assumes "descend [] (root this) (path_split pathname) = Inr (Found ps x)"
    and "q \<in> set VALID_ATTRIBUTES"
    and "q \<noteq> ''HOST_INFO''"
    and "map_of (serialize ps x) q = None"
    and "\<not> (q = ''VALUE'' \<and> (serialized_access x = Some 0 \<or> serialized_access x = Some 2))"
  shows "handleGet this pathname (''?'' @ q) =
     Inr \<lparr>statusCode = 200, headers = [(''Content-Type'', ''application/json'')],
          body = Some (JObj [])\<rparr>"
proof -
  have ne: "q \<noteq> []"
    using assms(2) by (auto simp: VALID_ATTRIBUTES_def)
  have h: "handleGet this pathname (''?'' @ q) = select_attribute ps x q"
    using assms(1,2,3) ne by (simp add: handleGet_def)
  have u: "get_property (serialize ps x) q = JSUndefined"
    using assms(4) by (simp add: get_property_def)
  show ?thesis
    unfolding h select_attribute_def Let_def get_property_ACCESS u
    using assms(5) by (auto simp: respondJson_def split: option.splits)
qed

theorem get_attribute_not_emitted_witness:
  "descend [] (root (new_OSCQueryServer example_opts)) (path_split ''/'')
     = Inr (Found [] (root (new_OSCQueryServer example_opts)))
   \<and> ''TYPE'' \<in> set VALID_ATTRIBUTES
   \<and> map_of (serialize [] (root (new_OSCQueryServer example_opts))) ''TYPE'' = None
   \<and> handleGet (new_OSCQueryServer example_opts) ''/'' ''?TYPE''
       = Inr \<lparr>statusCode = 200, headers = [(''Content-Type'', ''application/json'')],
              body = Some (JObj [])\<rparr>"
proof -
  have h1: "descend [] (root (new_OSCQueryServer example_opts)) (path_split ''/'')
     = Inr (Found [] (root (new_OSCQueryServer example_opts)))"
    by code_simp
  have h2: "''TYPE'' \<in> set VALID_ATTRIBUTES"
    by (simp add: VALID_ATTRIBUTES_def)
  have h3: "''TYPE'' \<noteq> ''HOST_INFO''"
    by simp
  have h4: "map_of (serialize [] (root (new_OSCQueryServer example_opts))) ''TYPE'' = None"
    by code_simp
  have h5: "\<not> (''TYPE'' = ''VALUE''
      \<and> (serialized_access (root (new_OSCQueryServer example_opts)) = Some 0
         \<or> serialized_access (root (new_OSCQueryServer example_opts)) = Some 2))"
    by simp
  show ?thesis
    using h1 h2 h4 get_attribute_not_emitted [OF h1 h2 h3 h4 h5] by simp
qed

text \<open>
  On a fresh server the root has no arguments, so \<^verbatim>\<open>TYPE\<close> is not emitted for it, and
  \<^verbatim>\<open>GET /?TYPE\<close> returns the empty object, not an object with \<^verbatim>\<open>TYPE\<close> set to null.
\<close>

theorem get_TYPE_of_root_counterexample:
  "map_of (serialize [] (root (new_OSCQueryServer example_opts))) ''TYPE'' = None
   \<and> handleGet (new_OSCQueryServer example_opts) ''/'' ''?TYPE''
       = Inr \<lparr>statusCode = 200, headers = [(''Content-Type'', ''application/json'')],
              body = Some (JObj [])\<rparr>
   \<and> JObj [] \<noteq> JObj [(''TYPE'', JNull)]"
  by code_simp

section \<open>Properties of the tree operations\<close>

lemma children_set_children [simp]: "children (set_children n cs) = cs"
  by (simp add: set_children_def)

lemma name_set_children [simp]: "name (set_children n cs) = name n"
  by (simp add: set_children_def)

lemma meta_set_children [simp]: "meta (set_children n cs) = meta n"
  by (simp add: set_children_def)

lemma set_children_twice [simp]: "set_children (set_children n a) b = set_children n b"
  by (simp add: set_children_def)

lemma children_setOpts [simp]: "children (setOpts n p) = children n"
  by (simp add: setOpts_def)

lemma name_setOpts [simp]: "name (setOpts n p) = name n"
  by (simp add: setOpts_def)

lemma meta_setOpts [simp]: "meta (setOpts n p) = p"
  by (simp add: setOpts_def)

lemma setOpts_eq: "setOpts n p = OSCNode (name n) p (children n)"
  by (simp add: setOpts_def)

lemma getChild_set_children [simp]: "getChild (set_children n cs) k = map_of cs k"
  by (simp add: getChild_def)

lemma hasChild_set_children [simp]:
  "hasChild (set_children n cs) k = (map_of cs k \<noteq> None \<or> k \<in> set Object_prototype_keys)"
  by (simp add: hasChild_def)

lemma update_after_append:
  "map_of cs k = None \<Longrightarrow> AList.update k v (cs @ [(k, w)]) = cs @ [(k, v)]"
  by (induction cs) (auto split: if_splits)

subsection \<open>Walking down and putting back\<close>

lemma descend_Found_Cons:
  assumes "descend ps0 n0 (k # ks) = Inr (Found ps x)"
  obtains c where "getChild n0 k = Some c" and "hasChild n0 k"
    and "descend ((n0, k) # ps0) c ks = Inr (Found ps x)"
  using assms by (auto split: if_splits option.splits)

lemma descend_Cons_child:
  "map_of (children n) k = Some c \<Longrightarrow> descend qs n (k # ks) = descend ((n, k) # qs) c ks"
  by (simp add: hasChild_def getChild_def)

lemma addMethod_loop_existing:
  "descend ps0 n0 segs = Inr (Found ps x) \<Longrightarrow> addMethod_loop ps0 n0 segs = Inr (ps, x)"
proof (induction segs arbitrary: ps0 n0)
  case Nil
  then show ?case by simp
next
  case (Cons k ks)
  from Cons.prems obtain c where c: "getChild n0 k = Some c" "hasChild n0 k"
    "descend ((n0, k) # ps0) c ks = Inr (Found ps x)"
    by (rule descend_Found_Cons)
  then show ?case using Cons.IH by simp
qed

lemma rebuild_addMethod_loop:
  "addMethod_loop ps0 n0 segs = Inr (ps, x) \<Longrightarrow>
     rebuild ps (setOpts x params) = rebuild ps0 (add_at segs params n0)"
proof (induction segs arbitrary: ps0 n0)
  case Nil
  then show ?case by simp
next
  case (Cons k ks)
  show ?case
  proof (cases "hasChild n0 k")
    case False
    then have none: "map_of (children n0) k = None"
      by (simp add: hasChild_def)
    from Cons.prems False
    have "addMethod_loop
        ((set_children n0 (children n0 @ [(k, new_OSCNode k)]), k) # ps0) (new_OSCNode k) ks
        = Inr (ps, x)"
      by (simp add: Let_def)
    from Cons.IH [OF this] show ?thesis
      using False none by (simp add: update_after_append)
  next
    case True
    with Cons.prems obtain c where c: "getChild n0 k = Some c"
      "addMethod_loop ((n0, k) # ps0) c ks = Inr (ps, x)"
      by (auto split: option.splits)
    from Cons.IH [OF c(2)] show ?thesis
      using True c(1) by simp
  qed
qed

lemma descend_add_at:
  "addMethod_loop ps0 n0 segs = Inr (ps, x) \<Longrightarrow>
     \<exists>ps'. descend qs (add_at segs params n0) segs = Inr (Found ps' (setOpts x params))"
proof (induction segs arbitrary: ps0 n0 qs)
  case Nil
  then show ?case by simp
next
  case (Cons k ks)
  show ?case
  proof (cases "hasChild n0 k")
    case False
    then have none: "map_of (children n0) k = None"
      by (simp add: hasChild_def)
    define a where "a = add_at ks params (new_OSCNode k)"
    define n1 where "n1 = set_children n0 (children n0 @ [(k, a)])"
    from Cons.prems False
    have "addMethod_loop
        ((set_children n0 (children n0 @ [(k, new_OSCNode k)]), k) # ps0) (new_OSCNode k) ks
        = Inr (ps, x)"
      by (simp add: Let_def)
    from Cons.IH [OF this, of "(n1, k) # qs"]
    obtain ps' where "descend ((n1, k) # qs) a ks = Inr (Found ps' (setOpts x params))"
      unfolding a_def by blast
    moreover have "map_of (children n1) k = Some a"
      using none by (simp add: n1_def map_add_def)
    ultimately have "descend qs n1 (k # ks) = Inr (Found ps' (setOpts x params))"
      by (simp only: descend_Cons_child)
    moreover have "add_at (k # ks) params n0 = n1"
      using False by (simp add: n1_def a_def)
    ultimately show ?thesis by auto
  next
    case True
    with Cons.prems obtain c where c: "getChild n0 k = Some c"
      "addMethod_loop ((n0, k) # ps0) c ks = Inr (ps, x)"
      by (auto split: option.splits)
    define a where "a = add_at ks params c"
    define n1 where "n1 = set_children n0 (AList.update k a (children n0))"
    from Cons.IH [OF c(2), of "(n1, k) # qs"]
    obtain ps' where "descend ((n1, k) # qs) a ks = Inr (Found ps' (setOpts x params))"
      unfolding a_def by blast
    moreover have "map_of (children n1) k = Some a"
      by (simp add: n1_def update_conv')
    ultimately have "descend qs n1 (k # ks) = Inr (Found ps' (setOpts x params))"
      by (simp only: descend_Cons_child)
    moreover have "add_at (k # ks) params n0 = n1"
      using True c(1) by (simp add: n1_def a_def)
    ultimately show ?thesis by auto
  qed
qed

text \<open>
  C10.  When the path \<open>p\<close> leads to a node, \<^verbatim>\<open>addMethod(p, spec)\<close> raises nothing, and
  the node then found at \<open>p\<close> has the same name and the same children and all of its
  metadata (description, access, tags, critical, arguments) is \<open>spec\<close>: every field takes
  the value \<open>spec\<close> gives it, \<^verbatim>\<open>undefined\<close> when \<open>spec\<close> has none, so nothing of the old
  metadata is kept.
\<close>

theorem addMethod_overwrites_metadata:
  assumes "found_node (getNodeForPath this p) = Some x"
  shows "fst (addMethod p spec this) = None
       \<and> found_node (getNodeForPath (snd (addMethod p spec this)) p)
           = Some (OSCNode (name x) spec (children x))
       \<and> opts (snd (addMethod p spec this)) = opts this"
proof -
  obtain ps where d: "descend [] (root this) (path_split p) = Inr (Found ps x)"
    using assms by (auto simp: getNodeForPath_def dest: found_nodeD)
  have l: "addMethod_loop [] (root this) (path_split p) = Inr (ps, x)"
    using d by (rule addMethod_loop_existing)
  have r: "rebuild ps (setOpts x spec) = add_at (path_split p) spec (root this)"
    using rebuild_addMethod_loop [OF l] by simp
  obtain ps' where
    "descend [] (add_at (path_split p) spec (root this)) (path_split p)
       = Inr (Found ps' (setOpts x spec))"
    using descend_add_at [OF l] by blast
  then show ?thesis
    using l r by (simp add: addMethod_def getNodeForPath_def setOpts_eq)
qed

theorem addMethod_overwrites_metadata_witness:
  "found_node (getNodeForPath example_server ''/a/b'')
     = Some (OSCNode ''b'' no_opts [(''c'', OSCNode ''c'' ranged_float [])])
   \<and> fst (addMethod ''/a/b'' chatbox_input example_server) = None
   \<and> found_node (getNodeForPath (snd (addMethod ''/a/b'' chatbox_input example_server)) ''/a/b'')
       = Some (OSCNode ''b'' chatbox_input [(''c'', OSCNode ''c'' ranged_float [])])"
proof -
  have h: "found_node (getNodeForPath example_server ''/a/b'')
     = Some (OSCNode ''b'' no_opts [(''c'', OSCNode ''c'' ranged_float [])])"
    by code_simp
  show ?thesis
    using h addMethod_overwrites_metadata [OF h, of chatbox_input] by simp
qed

subsection \<open>Children stored under their names\<close>

lemma keyed_by_name_children: "keyed_by_name n = children_keyed_by_name (children n)"
  by (cases n) simp

lemma children_keyed_by_name_lookup:
  "children_keyed_by_name cs \<Longrightarrow> map_of cs k = Some c \<Longrightarrow> name c = k \<and> keyed_by_name c"
  by (induction cs) (auto split: if_splits)

lemma children_keyed_by_name_append:
  "children_keyed_by_name (cs @ [(k, c)])
     = (children_keyed_by_name cs \<and> name c = k \<and> keyed_by_name c)"
  by (induction cs) auto

lemma children_keyed_by_name_update:
  "children_keyed_by_name cs \<Longrightarrow> name c = k \<Longrightarrow> keyed_by_name c \<Longrightarrow>
     children_keyed_by_name (AList.update k c cs)"
  by (induction cs) auto

lemma children_keyed_by_name_delete:
  "children_keyed_by_name cs \<Longrightarrow> children_keyed_by_name (AList.delete k cs)"
  by (induction cs) auto

lemma keyed_by_name_set_children [simp]:
  "keyed_by_name (set_children n cs) = children_keyed_by_name cs"
  by (simp add: set_children_def)

lemma keyed_by_name_setOpts [simp]: "keyed_by_name (setOpts n p) = keyed_by_name n"
  by (cases n) (simp add: setOpts_def)

lemma keyed_by_name_new [simp]: "keyed_by_name (new_OSCNode k)"
  by (simp add: new_OSCNode_def)

lemma name_new [simp]: "name (new_OSCNode k) = k"
  by (simp add: new_OSCNode_def)

lemma name_add_at [simp]: "name (add_at segs params n) = name n"
  by (cases segs) (auto split: option.splits)

lemma keyed_by_name_add_at: "keyed_by_name n \<Longrightarrow> keyed_by_name (add_at segs params n)"
proof (induction segs arbitrary: n)
  case Nil
  then show ?case by simp
next
  case (Cons k ks)
  have cs: "children_keyed_by_name (children n)"
    using Cons.prems by (simp add: keyed_by_name_children)
  show ?case
  proof (cases "hasChild n k")
    case False
    then show ?thesis
      using cs Cons.IH [of "new_OSCNode k"] by (simp add: children_keyed_by_name_append)
  next
    case True
    show ?thesis
    proof (cases "getChild n k")
      case None
      then show ?thesis using True Cons.prems by simp
    next
      case (Some c)
      then have "name c = k \<and> keyed_by_name c"
        using cs by (simp add: getChild_def children_keyed_by_name_lookup)
      then show ?thesis
        using True Some cs Cons.IH [of c] by (simp add: children_keyed_by_name_update)
    qed
  qed
qed

lemma keyed_by_name_fresh: "keyed_by_name (root (new_OSCQueryServer options))"
  by (simp add: new_OSCQueryServer_def new_OSCNode_def setOpts_def)

lemma assembleFullPath_descend:
  "keyed_by_name n0 \<Longrightarrow> descend ps0 n0 segs = Inr (Found ps x) \<Longrightarrow>
     assembleFullPath ps x = assembleFullPath ps0 n0 @ concat (map (\<lambda>c. CHR ''/'' # c) segs)"
proof (induction segs arbitrary: ps0 n0)
  case Nil
  then show ?case by simp
next
  case (Cons k ks)
  from Cons.prems(2) obtain c where c: "getChild n0 k = Some c"
    "descend ((n0, k) # ps0) c ks = Inr (Found ps x)"
    by (rule descend_Found_Cons)
  have "children_keyed_by_name (children n0)"
    using Cons.prems(1) by (simp only: keyed_by_name_children)
  moreover have "map_of (children n0) k = Some c"
    using c(1) by (simp add: getChild_def)
  ultimately have "name c = k \<and> keyed_by_name c"
    by (rule children_keyed_by_name_lookup)
  then show ?case
    using Cons.IH [OF _ c(2)] by simp
qed

lemma serialize_FULL_PATH:
  "\<exists>rest. serialize ps x
     = (''FULL_PATH'', JSString (if assembleFullPath ps x \<noteq> [] then assembleFullPath ps x
                                  else ''/'')) # rest"
  by (cases x) (simp add: Let_def)

subsection \<open>Paths in normal form\<close>

lemma split_from_no_slash:
  "CHR ''/'' \<notin> set c \<Longrightarrow> split_from ''/'' cur (c @ rest) = split_from ''/'' (cur @ c) rest"
  by (induction c arbitrary: cur) auto

lemma path_split_components:
  "\<forall>c\<in>set cs. c \<noteq> [] \<and> CHR ''/'' \<notin> set c \<Longrightarrow>
     filter (\<lambda>p. p \<noteq> []) (split_from ''/'' cur (concat (map (\<lambda>c. CHR ''/'' # c) cs)))
       = filter (\<lambda>p. p \<noteq> []) [cur] @ cs"
proof (induction cs arbitrary: cur)
  case Nil
  then show ?case by simp
next
  case (Cons c cs)
  have "split_from ''/'' cur (concat (map (\<lambda>c. CHR ''/'' # c) (c # cs)))
      = cur # split_from ''/'' [] (c @ concat (map (\<lambda>c. CHR ''/'' # c) cs))"
    by simp
  also have "\<dots> = cur # split_from ''/'' c (concat (map (\<lambda>c. CHR ''/'' # c) cs))"
    using Cons.prems split_from_no_slash [of c "[]"] by simp
  finally show ?case
    using Cons.IH [of c] Cons.prems by simp
qed

lemma path_split_normal:
  assumes "\<forall>c\<in>set cs. c \<noteq> [] \<and> CHR ''/'' \<notin> set c"
  shows "path_split (full_path_of cs) = cs"
proof (cases "cs = []")
  case True
  then show ?thesis
    by (simp add: path_split_def split_def full_path_of_def)
next
  case False
  then have "path_split (full_path_of cs)
      = filter (\<lambda>p. p \<noteq> []) (split_from ''/'' [] (concat (map (\<lambda>c. CHR ''/'' # c) cs)))"
    by (simp add: path_split_def split_def full_path_of_def)
  also have "\<dots> = filter (\<lambda>p. p \<noteq> []) [[]] @ cs"
    using assms by (rule path_split_components)
  finally show ?thesis by simp
qed

text \<open>
  C3, as amended.  On a tree whose children are stored under their names, after
  \<^verbatim>\<open>addMethod(p, spec)\<close> has returned without raising, a GET with no selector whose
  \<^verbatim>\<open>url.pathname\<close> is \<open>p\<close> returns status 200 and a JSON object whose \<^verbatim>\<open>FULL_PATH\<close>
  is \<open>p\<close> in normal form: the non-empty components of \<open>p\<close>, each preceded by \<^verbatim>\<open>/\<close>, or
  \<^verbatim>\<open>/\<close> alone when there are none.  That is \<open>p\<close> itself when \<open>p\<close> is \<^verbatim>\<open>/\<close> or a
  sequence of non-empty \<^verbatim>\<open>/\<close>-free components each preceded by \<^verbatim>\<open>/\<close>.
\<close>

theorem addMethod_then_GET_full_path:
  assumes "keyed_by_name (root this)" and "fst (addMethod p spec this) = None"
  shows "(\<exists>rest. handleGet (snd (addMethod p spec this)) p [] =
            Inr \<lparr>statusCode = 200, headers = [(''Content-Type'', ''application/json'')],
                 body = Some (JObj ((''FULL_PATH'', JStr (full_path_of (path_split p))) # rest))\<rparr>)
       \<and> ((\<exists>cs. p = full_path_of cs \<and> (\<forall>c\<in>set cs. c \<noteq> [] \<and> CHR ''/'' \<notin> set c))
            \<longrightarrow> full_path_of (path_split p) = p)"
proof -
  define segs where "segs = path_split p"
  obtain ps x where l: "addMethod_loop [] (root this) segs = Inr (ps, x)"
    using assms(2) by (auto simp: addMethod_def segs_def split: sum.splits)
  have r: "root (snd (addMethod p spec this)) = add_at segs spec (root this)"
    using l rebuild_addMethod_loop [OF l, of spec] by (simp add: addMethod_def segs_def)
  have k: "keyed_by_name (add_at segs spec (root this))"
    using assms(1) by (rule keyed_by_name_add_at)
  obtain ps' where d: "descend [] (add_at segs spec (root this)) segs
      = Inr (Found ps' (setOpts x spec))"
    using descend_add_at [OF l] by blast
  have f: "assembleFullPath ps' (setOpts x spec) = concat (map (\<lambda>c. CHR ''/'' # c) segs)"
    using assembleFullPath_descend [OF k d] by simp
  obtain rest where s: "serialize ps' (setOpts x spec)
      = (''FULL_PATH'', JSString (full_path_of segs)) # rest"
    using serialize_FULL_PATH [of ps' "setOpts x spec"] f
    by (cases segs) (auto simp: full_path_of_def)
  have "handleGet (snd (addMethod p spec this)) p [] =
      Inr \<lparr>statusCode = 200, headers = [(''Content-Type'', ''application/json'')],
           body = Some (JObj ((''FULL_PATH'', JStr (full_path_of segs)) # JSON_members rest))\<rparr>"
    using r d s by (simp add: handleGet_def respondJson_def segs_def [symmetric])
  moreover have "(\<exists>cs. p = full_path_of cs \<and> (\<forall>c\<in>set cs. c \<noteq> [] \<and> CHR ''/'' \<notin> set c))
      \<longrightarrow> full_path_of (path_split p) = p"
    by (auto simp: path_split_normal)
  ultimately show ?thesis
    unfolding segs_def by blast
qed

theorem addMethod_then_GET_full_path_witness:
  "keyed_by_name (root (new_OSCQueryServer example_opts))
   \<and> fst (addMethod ''/chatbox/input'' chatbox_input (new_OSCQueryServer example_opts)) = None
   \<and> (\<exists>rest. handleGet
         (snd (addMethod ''/chatbox/input'' chatbox_input (new_OSCQueryServer example_opts)))
         ''/chatbox/input'' [] =
       Inr \<lparr>statusCode = 200, headers = [(''Content-Type'', ''application/json'')],
            body = Some (JObj ((''FULL_PATH'', JStr ''/chatbox/input'') # rest))\<rparr>)"
proof -
  have h1: "keyed_by_name (root (new_OSCQueryServer example_opts))"
    by (rule keyed_by_name_fresh)
  have h2: "fst (addMethod ''/chatbox/input'' chatbox_input (new_OSCQueryServer example_opts))
      = None"
    by code_simp
  have n: "full_path_of (path_split ''/chatbox/input'') = ''/chatbox/input''"
    by code_simp
  show ?thesis
    using h1 h2 addMethod_then_GET_full_path [OF h1 h2] unfolding n by simp
qed

text \<open>
  \<^verbatim>\<open>addMethod("/a/b/", spec)\<close> succeeds, and \<^verbatim>\<open>GET /a/b/\<close> then returns status 200 with
  \<^verbatim>\<open>FULL_PATH\<close> \<^verbatim>\<open>/a/b\<close>, which is not the path \<^verbatim>\<open>/a/b/\<close>.
\<close>

theorem trailing_slash_full_path_counterexample:
  "fst (addMethod ''/a/b/'' chatbox_input (new_OSCQueryServer example_opts)) = None
   \<and> handleGet (snd (addMethod ''/a/b/'' chatbox_input (new_OSCQueryServer example_opts)))
         ''/a/b/'' [] =
       Inr \<lparr>statusCode = 200, headers = [(''Content-Type'', ''application/json'')],
            body = Some (JObj [(''FULL_PATH'', JStr ''/a/b''), (''ACCESS'', JNum 2),
                               (''TYPE'', JStr ''sT'')])\<rparr>
   \<and> ''/a/b'' \<noteq> ''/a/b/''"
  by code_simp

subsection \<open>Removing a method\<close>

lemma removeMethod_loop_not_empty: "\<not> isEmpty y \<Longrightarrow> removeMethod_loop ps y = rebuild ps y"
  by (cases ps) auto

lemma name_prune [simp]: "name (prune segs n) = name n"
  by (cases segs) (auto simp: Let_def split: option.splits)

lemma isEmpty_set_children_update [simp]:
  "\<not> isEmpty (set_children n (AList.update k c cs))"
  by (simp add: isEmpty_def)

text \<open>The loop of \<^verbatim>\<open>removeMethod\<close>, which walks towards the root, computes \<open>prune\<close>.\<close>

lemma removeMethod_loop_prune:
  "keyed_by_name n0 \<Longrightarrow> descend ps0 n0 segs = Inr (Found ps x) \<Longrightarrow>
     removeMethod_loop ps (setOpts x no_opts) = removeMethod_loop ps0 (prune segs n0)"
proof (induction segs arbitrary: ps0 n0)
  case Nil
  then show ?case by simp
next
  case (Cons k ks)
  from Cons.prems(2) obtain c where c: "getChild n0 k = Some c"
    "descend ((n0, k) # ps0) c ks = Inr (Found ps x)"
    by (rule descend_Found_Cons)
  have "children_keyed_by_name (children n0)"
    using Cons.prems(1) by (simp only: keyed_by_name_children)
  moreover have m: "map_of (children n0) k = Some c"
    using c(1) by (simp add: getChild_def)
  ultimately have kc: "name c = k \<and> keyed_by_name c"
    by (rule children_keyed_by_name_lookup)
  define c1 where "c1 = prune ks c"
  have ih: "removeMethod_loop ps (setOpts x no_opts) = removeMethod_loop ((n0, k) # ps0) c1"
    unfolding c1_def using kc c(2) by (intro Cons.IH) simp_all
  have nm: "name c1 = k"
    using kc by (simp add: c1_def)
  show ?case
  proof (cases "isEmpty c1")
    case True
    have "removeMethod_loop ((n0, k) # ps0) c1
        = removeMethod_loop ps0
            (removeChild (set_children n0 (AList.update k c1 (children n0))) k)"
      using True nm by simp
    also have "removeChild (set_children n0 (AList.update k c1 (children n0))) k
        = set_children n0 (AList.delete k (children n0))"
      by (simp add: removeChild_def update_conv' delete_update_same)
    also have "set_children n0 (AList.delete k (children n0)) = prune (k # ks) n0"
      using True c(1) by (simp add: c1_def Let_def)
    finally show ?thesis using ih by simp
  next
    case False
    have p: "prune (k # ks) n0 = set_children n0 (AList.update k c1 (children n0))"
      using False c(1) by (simp add: c1_def Let_def)
    have "removeMethod_loop ((n0, k) # ps0) c1
        = rebuild ps0 (set_children n0 (AList.update k c1 (children n0)))"
      using False by simp
    also have "\<dots> = removeMethod_loop ps0 (prune (k # ks) n0)"
      unfolding p by (rule removeMethod_loop_not_empty [symmetric]) simp
    finally show ?thesis using ih by simp
  qed
qed

lemma prune_kept_nodes_not_empty:
  "0 < i \<Longrightarrow> i \<le> length segs \<Longrightarrow>
     descend qs (prune segs n0) (take i segs) = Inr (Found ps' n) \<Longrightarrow> \<not> isEmpty n"
proof (induction segs arbitrary: i qs n0)
  case Nil
  then show ?case by simp
next
  case (Cons k ks)
  from Cons.prems(1) obtain j where i: "i = Suc j"
    by (cases i) auto
  with Cons.prems(3)
  have d: "descend qs (prune (k # ks) n0) (k # take j ks) = Inr (Found ps' n)"
    by simp
  show ?case
  proof (cases "getChild n0 k")
    case None
    with d show ?thesis by (auto split: if_splits)
  next
    case (Some c)
    define c1 where "c1 = prune ks c"
    show ?thesis
    proof (cases "isEmpty c1")
      case True
      then have "prune (k # ks) n0 = set_children n0 (AList.delete k (children n0))"
        using Some by (simp add: c1_def Let_def)
      with d show ?thesis
        by (auto simp: delete_conv' split: if_splits)
    next
      case False
      then have p: "prune (k # ks) n0 = set_children n0 (AList.update k c1 (children n0))"
        using Some by (simp add: c1_def Let_def)
      have "map_of (children (prune (k # ks) n0)) k = Some c1"
        unfolding p by (simp add: update_conv')
      then have "descend qs (prune (k # ks) n0) (k # take j ks)
          = descend ((prune (k # ks) n0, k) # qs) c1 (take j ks)"
        by (rule descend_Cons_child)
      with d have d1: "descend ((prune (k # ks) n0, k) # qs) (prune ks c) (take j ks)
          = Inr (Found ps' n)"
        by (simp add: c1_def)
      show ?thesis
      proof (cases j)
        case 0
        with d1 False show ?thesis by (simp add: c1_def)
      next
        case (Suc j')
        then show ?thesis
          using Cons.IH [OF _ _ d1] Cons.prems(2) i by simp
      qed
    qed
  qed
qed

lemma prune_keeps_parent:
  "descend ps0 n0 segs = Inr (Found ps x) \<Longrightarrow> children x \<noteq> [] \<Longrightarrow>
     \<not> isEmpty (prune segs n0)
     \<and> (\<exists>ps'. descend qs (prune segs n0) segs = Inr (Found ps' (setOpts x no_opts)))"
proof (induction segs arbitrary: ps0 n0 qs)
  case Nil
  then show ?case by (simp add: isEmpty_def)
next
  case (Cons k ks)
  from Cons.prems(1) obtain c where c: "getChild n0 k = Some c"
    "descend ((n0, k) # ps0) c ks = Inr (Found ps x)"
    by (rule descend_Found_Cons)
  define c1 where "c1 = prune ks c"
  have ne: "\<not> isEmpty c1"
    unfolding c1_def using Cons.IH [OF c(2) Cons.prems(2)] by blast
  then have p: "prune (k # ks) n0 = set_children n0 (AList.update k c1 (children n0))"
    using c(1) by (simp add: c1_def Let_def)
  obtain ps' where "descend ((prune (k # ks) n0, k) # qs) c1 ks
      = Inr (Found ps' (setOpts x no_opts))"
    unfolding c1_def using Cons.IH [OF c(2) Cons.prems(2)] by blast
  moreover have "map_of (children (prune (k # ks) n0)) k = Some c1"
    unfolding p by (simp add: update_conv')
  ultimately have "descend qs (prune (k # ks) n0) (k # ks) = Inr (Found ps' (setOpts x no_opts))"
    by (simp only: descend_Cons_child)
  then show ?case
    unfolding p by auto
qed

lemma prune_removes_leaf:
  "descend ps0 n0 segs = Inr (Found ps x) \<Longrightarrow> children x = [] \<Longrightarrow> segs \<noteq> [] \<Longrightarrow>
     found_node (descend qs (prune segs n0) segs) = None"
proof (induction segs arbitrary: ps0 n0 qs)
  case Nil
  then show ?case by simp
next
  case (Cons k ks)
  from Cons.prems(1) obtain c where c: "getChild n0 k = Some c"
    "descend ((n0, k) # ps0) c ks = Inr (Found ps x)"
    by (rule descend_Found_Cons)
  define c1 where "c1 = prune ks c"
  show ?case
  proof (cases "isEmpty c1")
    case True
    then have "prune (k # ks) n0 = set_children n0 (AList.delete k (children n0))"
      using c(1) by (simp add: c1_def Let_def)
    then show ?thesis
      by (simp add: delete_conv')
  next
    case False
    then have p: "prune (k # ks) n0 = set_children n0 (AList.update k c1 (children n0))"
      using c(1) by (simp add: c1_def Let_def)
    have ks: "ks \<noteq> []"
    proof
      assume "ks = []"
      with c(2) have "c1 = setOpts c no_opts" and "x = c"
        by (simp_all add: c1_def)
      with Cons.prems(2) have "isEmpty c1"
        by (simp add: isEmpty_def no_opts_def)
      with False show False by simp
    qed
    have "map_of (children (prune (k # ks) n0)) k = Some c1"
      unfolding p by (simp add: update_conv')
    then have "descend qs (prune (k # ks) n0) (k # ks)
        = descend ((prune (k # ks) n0, k) # qs) c1 ks"
      by (rule descend_Cons_child)
    then show ?thesis
      using Cons.IH [OF c(2) Cons.prems(2) ks] by (simp add: c1_def)
  qed
qed

lemma keyed_by_name_prune: "keyed_by_name n \<Longrightarrow> keyed_by_name (prune segs n)"
proof (induction segs arbitrary: n)
  case Nil
  then show ?case by simp
next
  case (Cons k ks)
  have cs: "children_keyed_by_name (children n)"
    using Cons.prems by (simp only: keyed_by_name_children)
  show ?case
  proof (cases "getChild n k")
    case None
    then show ?thesis using Cons.prems by simp
  next
    case (Some c)
    then have "map_of (children n) k = Some c"
      by (simp add: getChild_def)
    with cs have "name c = k \<and> keyed_by_name c"
      by (rule children_keyed_by_name_lookup)
    then show ?thesis
      using Some cs Cons.IH [of c]
      by (simp add: Let_def children_keyed_by_name_update children_keyed_by_name_delete)
  qed
qed

text \<open>
  C5, as amended.  On a tree whose children are stored under their names,
  \<^verbatim>\<open>removeMethod(p)\<close> changes nothing when some component of \<open>p\<close> is not a child.  When
  \<open>p\<close> leads to a node, it raises nothing and leaves the tree that the cleanup rule
  describes: the metadata of that node is cleared; the node is kept when it has children;
  a node without children that is not the root is removed, and so is each parent that is
  thereby left empty, up to the first non-empty node or the root, which is never removed
  (the root is only cleared when \<open>p\<close> is the root itself).  Afterwards every node that is
  still on the path from the root to \<open>p\<close>, the root itself excepted, is non-empty; the
  root may be left empty.  Children are still stored under their names.  (Nothing is said
  here of a path through a name inherited from \<^verbatim>\<open>Object.prototype\<close>, where the call
  raises a \<^verbatim>\<open>TypeError\<close>.)
\<close>

theorem removeMethod_cleanup:
  assumes "keyed_by_name (root this)"
  shows "(getNodeForPath this p = Inr Missing \<longrightarrow> removeMethod p this = (None, this))
       \<and> (\<forall>x. found_node (getNodeForPath this p) = Some x \<longrightarrow>
             removeMethod p this = (None, this\<lparr>root := prune (path_split p) (root this)\<rparr>)
             \<and> (path_split p = [] \<longrightarrow>
                  root (snd (removeMethod p this)) = setOpts (root this) no_opts)
             \<and> (children x \<noteq> [] \<longrightarrow>
                  found_node (getNodeForPath (snd (removeMethod p this)) p)
                    = Some (OSCNode (name x) no_opts (children x)))
             \<and> (children x = [] \<and> path_split p \<noteq> [] \<longrightarrow>
                  found_node (getNodeForPath (snd (removeMethod p this)) p) = None)
             \<and> (\<forall>i n. 0 < i \<and> i \<le> length (path_split p)
                    \<and> found_node (descend [] (root (snd (removeMethod p this)))
                          (take i (path_split p))) = Some n
                  \<longrightarrow> \<not> isEmpty n))
       \<and> keyed_by_name (root (snd (removeMethod p this)))"
proof -
  define segs where "segs = path_split p"
  have missing: "getNodeForPath this p = Inr Missing \<longrightarrow> removeMethod p this = (None, this)"
    by (simp add: removeMethod_def)
  have found: "removeMethod p this = (None, this\<lparr>root := prune segs (root this)\<rparr>)
      \<and> (segs = [] \<longrightarrow> root (snd (removeMethod p this)) = setOpts (root this) no_opts)
      \<and> (children x \<noteq> [] \<longrightarrow>
           found_node (getNodeForPath (snd (removeMethod p this)) p)
             = Some (OSCNode (name x) no_opts (children x)))
      \<and> (children x = [] \<and> segs \<noteq> [] \<longrightarrow>
           found_node (getNodeForPath (snd (removeMethod p this)) p) = None)
      \<and> (\<forall>i n. 0 < i \<and> i \<le> length segs
             \<and> found_node (descend [] (root (snd (removeMethod p this))) (take i segs)) = Some n
           \<longrightarrow> \<not> isEmpty n)"
    if x: "found_node (getNodeForPath this p) = Some x" for x
  proof -
    obtain ps where d: "descend [] (root this) segs = Inr (Found ps x)"
      using x by (auto simp: getNodeForPath_def segs_def dest: found_nodeD)
    have l: "removeMethod_loop ps (setOpts x no_opts) = prune segs (root this)"
      using removeMethod_loop_prune [OF assms d] by simp
    have r: "removeMethod p this = (None, this\<lparr>root := prune segs (root this)\<rparr>)"
      using d l by (simp add: removeMethod_def getNodeForPath_def segs_def)
    have a: "segs = [] \<longrightarrow> root (snd (removeMethod p this)) = setOpts (root this) no_opts"
      using r by simp
    have b: "children x \<noteq> [] \<longrightarrow>
        found_node (getNodeForPath (snd (removeMethod p this)) p)
          = Some (OSCNode (name x) no_opts (children x))"
    proof
      assume "children x \<noteq> []"
      from prune_keeps_parent [OF d this, of "[]"]
      obtain ps' where "descend [] (prune segs (root this)) segs
          = Inr (Found ps' (setOpts x no_opts))"
        by blast
      then show "found_node (getNodeForPath (snd (removeMethod p this)) p)
          = Some (OSCNode (name x) no_opts (children x))"
        using r by (simp add: getNodeForPath_def segs_def setOpts_eq)
    qed
    have c: "children x = [] \<and> segs \<noteq> [] \<longrightarrow>
        found_node (getNodeForPath (snd (removeMethod p this)) p) = None"
      using prune_removes_leaf [OF d, of "[]"] r
      by (simp add: getNodeForPath_def segs_def)
    have e: "\<forall>i n. 0 < i \<and> i \<le> length segs
        \<and> found_node (descend [] (root (snd (removeMethod p this))) (take i segs)) = Some n
        \<longrightarrow> \<not> isEmpty n"
    proof (intro allI impI)
      fix i n
      assume h: "0 < i \<and> i \<le> length segs
        \<and> found_node (descend [] (root (snd (removeMethod p this))) (take i segs)) = Some n"
      then obtain ps' where "descend [] (prune segs (root this)) (take i segs)
          = Inr (Found ps' n)"
        using r by (auto dest: found_nodeD)
      with h show "\<not> isEmpty n"
        using prune_kept_nodes_not_empty [of i segs "[]" "root this" ps' n] by simp
    qed
    show ?thesis using r a b c e by blast
  qed
  have keyed: "keyed_by_name (root (snd (removeMethod p this)))"
  proof (cases "found_node (getNodeForPath this p)")
    case None
    then have "snd (removeMethod p this) = this"
      by (auto simp: removeMethod_def split: sum.splits lookup.splits)
    then show ?thesis using assms by simp
  next
    case (Some x)
    from found [OF this] show ?thesis
      using assms by (simp add: keyed_by_name_prune)
  qed
  show ?thesis
    using missing found keyed unfolding segs_def by blast
qed

theorem removeMethod_cleanup_witness:
  "keyed_by_name (root example_server_two)
   \<and> found_node (getNodeForPath example_server_two ''/a/b/c'')
       = Some (OSCNode ''c'' ranged_float [])
   \<and> removeMethod ''/a/b/c'' example_server_two
       = (None, snd (addMethod ''/a/d'' chatbox_input (new_OSCQueryServer example_opts)))
   \<and> found_node (getNodeForPath (snd (removeMethod ''/a/b/c'' example_server_two)) ''/a/b/c'')
       = None
   \<and> getNodeForPath example_server_two ''/a/x'' = Inr Missing
   \<and> removeMethod ''/a/x'' example_server_two = (None, example_server_two)"
proof -
  have h: "keyed_by_name (root example_server_two)"
    by code_simp
  have f: "found_node (getNodeForPath example_server_two ''/a/b/c'')
       = Some (OSCNode ''c'' ranged_float [])"
    by code_simp
  have m: "getNodeForPath example_server_two ''/a/x'' = Inr Missing"
    by code_simp
  have e: "example_server_two\<lparr>root := prune (path_split ''/a/b/c'') (root example_server_two)\<rparr>
      = snd (addMethod ''/a/d'' chatbox_input (new_OSCQueryServer example_opts))"
    by code_simp
  have c: "children (OSCNode ''c'' ranged_float []) = [] \<and> path_split ''/a/b/c'' \<noteq> []"
    by code_simp
  from removeMethod_cleanup [OF h, of "''/a/b/c''"] f
  have "removeMethod ''/a/b/c'' example_server_two
      = (None, snd (addMethod ''/a/d'' chatbox_input (new_OSCQueryServer example_opts)))"
    unfolding e by blast
  moreover from removeMethod_cleanup [OF h, of "''/a/b/c''"] f c
  have "found_node (getNodeForPath (snd (removeMethod ''/a/b/c'' example_server_two)) ''/a/b/c'')
      = None"
    by blast
  moreover from removeMethod_cleanup [OF h, of "''/a/x''"] m
  have "removeMethod ''/a/x'' example_server_two = (None, example_server_two)"
    by blast
  ultimately show ?thesis
    using h f m by simp
qed

text \<open>
  After \<^verbatim>\<open>addMethod("/a/b/c", ...)\<close> on a fresh server, \<^verbatim>\<open>removeMethod("/a/b/c")\<close> removes
  \<^verbatim>\<open>c\<close>, \<^verbatim>\<open>b\<close> and \<^verbatim>\<open>a\<close> and stops at the root.  The root, which is on the path, is left
  with no arguments and no children: it is empty, and it remains.
\<close>

theorem root_left_empty_counterexample:
  "removeMethod ''/a/b/c'' example_server = (None, new_OSCQueryServer example_opts)
   \<and> found_node (getNodeForPath (new_OSCQueryServer example_opts) ''/'')
       = Some (root (new_OSCQueryServer example_opts))
   \<and> isEmpty (root (new_OSCQueryServer example_opts))"
  by code_simp

subsection \<open>Setting and clearing values\<close>

text \<open>
  C7, where the code departs from it.  On any server, \<^verbatim>\<open>toString\<close> is not a child of the
  root, yet \<^verbatim>\<open>"toString" in this._children\<close> holds, \<^verbatim>\<open>_getNodeForPath("/toString")\<close>
  returns a function instead of \<^verbatim>\<open>null\<close>, and \<^verbatim>\<open>setValue\<close> and \<^verbatim>\<open>unsetValue\<close> raise a
  \<^verbatim>\<open>TypeError\<close> instead of returning silently.
\<close>

theorem setValue_inherited_name_raises:
  "getChild (root (new_OSCQueryServer example_opts)) ''toString'' = None
   \<and> getNodeForPath (new_OSCQueryServer example_opts) ''/toString'' = Inr NotANode
   \<and> setValue ''/toString'' 0 (JSNumber 1) (new_OSCQueryServer example_opts)
       = (Some TypeError, new_OSCQueryServer example_opts)
   \<and> unsetValue ''/toString'' 0 (new_OSCQueryServer example_opts)
       = (Some TypeError, new_OSCQueryServer example_opts)"
  by code_simp

text \<open>
  What else the specification says of the two calls holds.  When the path leads to a node
  that has no argument slot at the index (no arguments, or an index at or beyond their
  number), \<^verbatim>\<open>setValue\<close> and \<^verbatim>\<open>unsetValue\<close> raise the index error and leave the server
  as it was.
\<close>

theorem setValue_index_out_of_range:
  assumes "found_node (getNodeForPath this p) = Some x"
    and "arguments (meta x) = None
         \<or> (\<exists>args. arguments (meta x) = Some args \<and> int (length args) \<le> i)"
  shows "setValue p i v this = (Some IndexOutOfRange, this)
       \<and> unsetValue p i this = (Some IndexOutOfRange, this)"
proof -
  obtain ps where "getNodeForPath this p = Inr (Found ps x)"
    using assms(1) by (auto dest: found_nodeD)
  then show ?thesis
    using assms(2)
    by (auto simp: setValue_def unsetValue_def node_setValue_def node_unsetValue_def)
qed

theorem setValue_index_out_of_range_witness:
  "found_node (getNodeForPath example_server ''/a/b/c'') = Some (OSCNode ''c'' ranged_float [])
   \<and> setValue ''/a/b/c'' 1 (JSNumber 5) example_server = (Some IndexOutOfRange, example_server)
   \<and> unsetValue ''/a/b/c'' 1 example_server = (Some IndexOutOfRange, example_server)"
proof -
  have h: "found_node (getNodeForPath example_server ''/a/b/c'')
      = Some (OSCNode ''c'' ranged_float [])"
    by code_simp
  have a: "arguments (meta (OSCNode ''c'' ranged_float [])) = None
      \<or> (\<exists>args. arguments (meta (OSCNode ''c'' ranged_float [])) = Some args
            \<and> int (length args) \<le> 1)"
    by (simp add: ranged_float_def)
  show ?thesis
    using h setValue_index_out_of_range [OF h a] by simp
qed

text \<open>
  When some component of the path is not a child (\<^verbatim>\<open>_getNodeForPath\<close> returns
  \<^verbatim>\<open>null\<close>), \<^verbatim>\<open>setValue\<close> and \<^verbatim>\<open>unsetValue\<close> return without raising and without effect.
\<close>

theorem setValue_missing_path:
  assumes "getNodeForPath this p = Inr Missing"
  shows "setValue p i v this = (None, this) \<and> unsetValue p i this = (None, this)"
  using assms by (simp add: setValue_def unsetValue_def)

theorem setValue_missing_path_witness:
  "getNodeForPath example_server ''/a/x'' = Inr Missing
   \<and> setValue ''/a/x'' 0 (JSNumber 5) example_server = (None, example_server)
   \<and> unsetValue ''/a/x'' 0 example_server = (None, example_server)"
proof -
  have h: "getNodeForPath example_server ''/a/x'' = Inr Missing"
    by code_simp
  show ?thesis
    using h setValue_missing_path [OF h] by simp
qed

subsection \<open>Every tree the server builds stores children under their names\<close>

lemma parents_keyed_by_name_cong:
  "name y = name z \<Longrightarrow> parents_keyed_by_name ps y = parents_keyed_by_name ps z"
  by (cases ps) auto

lemma keyed_by_name_rebuild:
  "parents_keyed_by_name ps y \<Longrightarrow> keyed_by_name y \<Longrightarrow> keyed_by_name (rebuild ps y)"
proof (induction ps arbitrary: y)
  case Nil
  then show ?case by simp
next
  case (Cons f ps)
  obtain parent key where f: "f = (parent, key)"
    by (cases f)
  define z where "z = set_children parent (AList.update key y (children parent))"
  have cs: "children_keyed_by_name (children parent)"
    using Cons.prems(1) f by (simp add: keyed_by_name_children [of parent])
  have "keyed_by_name z"
    using Cons.prems f cs by (simp add: z_def children_keyed_by_name_update)
  moreover have "parents_keyed_by_name ps z"
    using Cons.prems(1) f parents_keyed_by_name_cong [of z parent ps] by (simp add: z_def)
  ultimately have "keyed_by_name (rebuild ps z)"
    by (rule Cons.IH [rotated])
  then show ?case
    using f by (simp add: z_def)
qed

lemma descend_keyed_by_name:
  "keyed_by_name n0 \<Longrightarrow> parents_keyed_by_name ps0 n0 \<Longrightarrow>
     descend ps0 n0 segs = Inr (Found ps x) \<Longrightarrow>
     keyed_by_name x \<and> parents_keyed_by_name ps x"
proof (induction segs arbitrary: ps0 n0)
  case Nil
  then show ?case by simp
next
  case (Cons k ks)
  from Cons.prems(3) obtain c where c: "getChild n0 k = Some c"
    "descend ((n0, k) # ps0) c ks = Inr (Found ps x)"
    by (rule descend_Found_Cons)
  have "children_keyed_by_name (children n0)"
    using Cons.prems(1) by (simp only: keyed_by_name_children)
  moreover have "map_of (children n0) k = Some c"
    using c(1) by (simp add: getChild_def)
  ultimately have "name c = k \<and> keyed_by_name c"
    by (rule children_keyed_by_name_lookup)
  then show ?case
    using Cons.IH [OF _ _ c(2)] Cons.prems(1,2) by simp
qed

lemma addMethod_loop_raises_keyed_by_name:
  "keyed_by_name n0 \<Longrightarrow> parents_keyed_by_name ps0 n0 \<Longrightarrow>
     addMethod_loop ps0 n0 segs = Inl root1 \<Longrightarrow> keyed_by_name root1"
proof (induction segs arbitrary: ps0 n0)
  case Nil
  then show ?case by simp
next
  case (Cons k ks)
  have cs: "children_keyed_by_name (children n0)"
    using Cons.prems(1) by (simp only: keyed_by_name_children)
  show ?case
  proof (cases "hasChild n0 k")
    case False
    define n1 where "n1 = set_children n0 (children n0 @ [(k, new_OSCNode k)])"
    have l: "addMethod_loop ((n1, k) # ps0) (new_OSCNode k) ks = Inl root1"
      using Cons.prems(3) False by (simp add: n1_def Let_def)
    have "keyed_by_name n1"
      using cs by (simp add: n1_def children_keyed_by_name_append)
    moreover have "parents_keyed_by_name ps0 n1"
      using Cons.prems(2) parents_keyed_by_name_cong [of n1 n0 ps0] by (simp add: n1_def)
    ultimately have "parents_keyed_by_name ((n1, k) # ps0) (new_OSCNode k)"
      by simp
    then show ?thesis
      using Cons.IH [OF _ _ l] by simp
  next
    case True
    show ?thesis
    proof (cases "getChild n0 k")
      case None
      then have "root1 = rebuild ps0 n0"
        using Cons.prems(3) True by simp
      then show ?thesis
        using Cons.prems(1,2) by (simp add: keyed_by_name_rebuild)
    next
      case (Some c)
      then have l: "addMethod_loop ((n0, k) # ps0) c ks = Inl root1"
        using Cons.prems(3) True by simp
      have "map_of (children n0) k = Some c"
        using Some by (simp add: getChild_def)
      with cs have "name c = k \<and> keyed_by_name c"
        by (rule children_keyed_by_name_lookup)
      then show ?thesis
        using Cons.IH [OF _ _ l] Cons.prems(1,2) by simp
    qed
  qed
qed

lemma keyed_by_name_addMethod:
  assumes "keyed_by_name (root this)"
  shows "keyed_by_name (root (snd (addMethod p spec this)))"
proof (cases "addMethod_loop [] (root this) (path_split p)")
  case (Inl root1)
  then have "keyed_by_name root1"
    using assms addMethod_loop_raises_keyed_by_name [of "root this" "[]"] by simp
  then show ?thesis
    using Inl by (simp add: addMethod_def)
next
  case (Inr r)
  obtain ps x where r: "r = (ps, x)"
    by (cases r)
  have "rebuild ps (setOpts x spec) = add_at (path_split p) spec (root this)"
    using rebuild_addMethod_loop [of "[]" "root this" "path_split p" ps x spec] Inr r by simp
  then show ?thesis
    using Inr r assms by (simp add: addMethod_def keyed_by_name_add_at)
qed

lemma keyed_by_name_removeMethod:
  assumes "keyed_by_name (root this)"
  shows "keyed_by_name (root (snd (removeMethod p this)))"
proof (cases "getNodeForPath this p")
  case (Inl e)
  then show ?thesis using assms by (simp add: removeMethod_def)
next
  case (Inr r)
  show ?thesis
  proof (cases r)
    case Missing
    then show ?thesis using Inr assms by (simp add: removeMethod_def)
  next
    case NotANode
    then show ?thesis using Inr assms by (simp add: removeMethod_def)
  next
    case (Found ps x)
    then have d: "descend [] (root this) (path_split p) = Inr (Found ps x)"
      using Inr by (simp add: getNodeForPath_def)
    have "removeMethod_loop ps (setOpts x no_opts) = prune (path_split p) (root this)"
      using removeMethod_loop_prune [OF assms d] by simp
    then show ?thesis
      using Inr Found assms by (simp add: removeMethod_def keyed_by_name_prune)
  qed
qed

lemma keyed_by_name_put_back:
  assumes "keyed_by_name (root this)"
    and "getNodeForPath this p = Inr (Found ps x)"
  shows "keyed_by_name (rebuild ps (setOpts x m))"
proof -
  have "keyed_by_name x \<and> parents_keyed_by_name ps x"
    using descend_keyed_by_name [of "root this" "[]" "path_split p" ps x] assms
    by (simp add: getNodeForPath_def)
  then have "keyed_by_name (setOpts x m) \<and> parents_keyed_by_name ps (setOpts x m)"
    using parents_keyed_by_name_cong [of "setOpts x m" x ps] by simp
  then show ?thesis
    by (simp add: keyed_by_name_rebuild)
qed

lemma keyed_by_name_setValue:
  assumes "keyed_by_name (root this)"
  shows "keyed_by_name (root (snd (setValue p i v this)))"
  using assms keyed_by_name_put_back [OF assms, of p]
  by (auto simp: setValue_def node_setValue_def
      split: sum.splits lookup.splits option.splits if_splits)

lemma keyed_by_name_unsetValue:
  assumes "keyed_by_name (root this)"
  shows "keyed_by_name (root (snd (unsetValue p i this)))"
  using assms keyed_by_name_put_back [OF assms, of p]
  by (auto simp: unsetValue_def node_unsetValue_def
      split: sum.splits lookup.splits option.splits if_splits)

lemma keyed_by_name_ops:
  "keyed_by_name (root this) \<Longrightarrow> keyed_by_name (root (foldl apply_server_op this ops))"
proof (induction ops arbitrary: this)
  case Nil
  then show ?case by simp
next
  case (Cons x ops)
  have "keyed_by_name (root (apply_server_op this x))"
    using Cons.prems
    by (cases x)
      (simp_all add: keyed_by_name_addMethod keyed_by_name_removeMethod keyed_by_name_setValue
        keyed_by_name_unsetValue)
  then show ?case
    using Cons.IH by simp
qed

text \<open>
  Whatever calls of \<^verbatim>\<open>addMethod\<close>, \<^verbatim>\<open>removeMethod\<close>, \<^verbatim>\<open>setValue\<close> and
  \<^verbatim>\<open>unsetValue\<close> are made on a new server, raising or not, every child in its tree is
  stored under its own name.
\<close>

theorem server_tree_keyed_by_name:
  "keyed_by_name (root (foldl apply_server_op (new_OSCQueryServer options) ops))"
  by (rule keyed_by_name_ops) (rule keyed_by_name_fresh)

theorem server_tree_keyed_by_name_witness:
  "keyed_by_name (root (foldl apply_server_op (new_OSCQueryServer example_opts)
     [AddMethod ''/a/b/c'' ranged_float, SetValue ''/a/b/c'' 0 (JSNumber 5),
      AddMethod ''/a/toString'' chatbox_input, RemoveMethod ''/a/b/c'']))"
  by (rule server_tree_keyed_by_name)

end
